theory Spec2Isabelle
  imports Main
begin

section \<open>The move-based game (tic-tac-toe rooms)\<close>

subsection \<open>Data model\<close>

text \<open>
  A room of the move-based game holds two player slots, \<open>user1\<close> and \<open>user2\<close>. A slot
  carries the bound user's identifier (absent while nobody is bound), a display name and
  the moves recorded for it, in the order they were pushed.
\<close>

record player_slot =
  userId :: "string option"
  username :: string
  moves :: "int list"

record room =
  user1 :: player_slot
  user2 :: player_slot

text \<open>The process-wide room table, keyed by room identifier.\<close>

type_synonym rooms = "string \<rightharpoonup> room"

text \<open>The payload of the \<open>joinRoom\<close> and \<open>move\<close> actions.\<close>

record JoinRoomPayload =
  roomId :: string
  payload_userId :: string
  payload_username :: string
  move :: int

text \<open>
  What a handler sends with \<open>io.in(room).emit(name, data)\<close>: the event name with its
  data. An emission pairs the addressed room with the event.
\<close>

datatype tic_event =
    UserLeave
  | Move int string
  | Win string string "int list option"
  | Draw string

type_synonym emission = "string \<times> tic_event"

text \<open>The exception a handler body can throw: a property read on \<open>undefined\<close>.\<close>

datatype js_error = TypeError

subsection \<open>Helpers of the handler\<close>

text \<open>
  Modelled from the spec: \<open>GetGameDetail\<close> is imported by the server and not defined in
  \<open>server.ts\<close>. It returns the state of the room, or \<open>undefined\<close> for a room that was
  never created.
\<close>

definition GetGameDetail :: "rooms \<Rightarrow> string \<Rightarrow> room option" where
  "GetGameDetail rs rid = rs rid"

text \<open>JavaScript's \<open>!x\<close> on an optional string: \<open>undefined\<close> and the empty string.\<close>

definition falsy :: "string option \<Rightarrow> bool" where
  "falsy u = (case u of None \<Rightarrow> True | Some s \<Rightarrow> s = [])"

text \<open>
  The eight winning triples of the 3x3 board: three rows, three columns, two diagonals.
\<close>

definition winPatterns :: "int list list" where
  "winPatterns =
     [[0, 1, 2], [3, 4, 5], [6, 7, 8],
      [0, 3, 6], [1, 4, 7], [2, 5, 8],
      [0, 4, 8], [2, 4, 6]]"

record win_result =
  isWin :: bool
  pattern :: "int list option"

text \<open>
  The moves recorded for a user: the move handler pushes a move to \<open>user1\<close> when the
  user's identifier is the one bound there, and to \<open>user2\<close> otherwise.
\<close>

definition player_moves :: "room \<Rightarrow> string \<Rightarrow> int list" where
  "player_moves r uid =
     (if userId (user1 r) = Some uid then moves (user1 r) else moves (user2 r))"

definition covers :: "int list \<Rightarrow> int list \<Rightarrow> bool" where
  "covers ms t = list_all (\<lambda>i. i \<in> set ms) t"

text \<open>
  Modelled from the spec: \<open>CheckWin\<close> is imported by the server and not defined in
  \<open>server.ts\<close>. It enumerates the fixed winning triples; the player has won when the
  moves recorded for that player contain every index of some triple, and the first such
  triple is the reported pattern. The \<open>winCount\<close> field of its result is never read by
  the server and is left out.
\<close>

definition CheckWin :: "rooms \<Rightarrow> string \<Rightarrow> string \<Rightarrow> win_result" where
  "CheckWin rs rid uid =
     (case GetGameDetail rs rid of
        None \<Rightarrow> \<lparr>isWin = False, pattern = None\<rparr>
      | Some r \<Rightarrow>
          (case find (covers (player_moves r uid)) winPatterns of
             None \<Rightarrow> \<lparr>isWin = False, pattern = None\<rparr>
           | Some t \<Rightarrow> \<lparr>isWin = True, pattern = Some t\<rparr>))"

subsection \<open>The move handler\<close>

text \<open>The push of \<open>payload.move\<close> onto a slot's move list.\<close>

definition push_move :: "player_slot \<Rightarrow> int \<Rightarrow> player_slot" where
  "push_move s m = s\<lparr>moves := moves s @ [m]\<rparr>"

text \<open>
  Lines 132-134: when either slot has no user, a \<open>userLeave\<close> notice goes to the
  room. Nothing returns here, so the handler carries on.
\<close>

definition leave_notice :: "room \<Rightarrow> JoinRoomPayload \<Rightarrow> emission list" where
  "leave_notice current_room payload =
     (if falsy (userId (user1 current_room)) \<or> falsy (userId (user2 current_room))
      then [(roomId payload, UserLeave)] else [])"

text \<open>
  Lines 136-144: the move is pushed to \<open>user1\<close> when the payload's user is the one
  bound there and to \<open>user2\<close> in every other case. The result is the mutated room
  with the \<open>moveCount\<close> and \<open>current_username\<close> locals.
\<close>

definition record_move :: "room \<Rightarrow> JoinRoomPayload \<Rightarrow> room \<times> nat \<times> string" where
  "record_move current_room payload =
     (if userId (user1 current_room) = Some (payload_userId payload)
      then (let r = current_room\<lparr>user1 := push_move (user1 current_room) (move payload)\<rparr>
            in (r, length (moves (user1 r)), username (user1 r)))
      else (let r = current_room\<lparr>user2 := push_move (user2 current_room) (move payload)\<rparr>
            in (r, length (moves (user2 r)), username (user2 r))))"

text \<open>
  Lines 151-168: from the slot's third move on, the win check on the room table as it is
  after the push; a win is announced and the handler returns; otherwise a draw is
  announced once both move lists together hold nine moves or more.
\<close>

definition verdict :: "rooms \<Rightarrow> room \<Rightarrow> JoinRoomPayload \<Rightarrow> nat \<Rightarrow> string \<Rightarrow> emission list" where
  "verdict rs current_room payload moveCount current_username =
     (if 3 \<le> moveCount
      then (let res = CheckWin rs (roomId payload) (payload_userId payload)
            in if isWin res
               then [(roomId payload,
                      Win (payload_userId payload) current_username (pattern res))]
               else if 9 \<le> length (moves (user1 current_room)) + length (moves (user2 current_room))
               then [(roomId payload, Draw (roomId payload))]
               else [])
      else [])"

text \<open>
  The body of the \<open>try\<close> block of \<open>socket.on('move')\<close>. Reading \<open>user1\<close> of an absent
  room throws. The room object is the one held by the table, so the push is a change of
  the table. The \<open>move\<close> notice is sent between the push and the checks.
\<close>

definition move_body :: "rooms \<Rightarrow> JoinRoomPayload \<Rightarrow> js_error + (rooms \<times> emission list)" where
  "move_body rs payload =
     (case GetGameDetail rs (roomId payload) of
        None \<Rightarrow> Inl TypeError
      | Some current_room \<Rightarrow>
          (case record_move current_room payload of
             (room', moveCount, current_username) \<Rightarrow>
               (let rs' = rs(roomId payload \<mapsto> room')
                in Inr (rs',
                        leave_notice current_room payload
                        @ [(roomId payload, Move (move payload) (payload_userId payload))]
                        @ verdict rs' room' payload moveCount current_username))))"

text \<open>
  The handler: the \<open>catch\<close> block only logs, so a thrown body leaves the room table as
  it was and emits nothing.
\<close>

definition move_handler :: "rooms \<Rightarrow> JoinRoomPayload \<Rightarrow> rooms \<times> emission list" where
  "move_handler rs payload =
     (case move_body rs payload of Inl e \<Rightarrow> (rs, []) | Inr res \<Rightarrow> res)"

text \<open>
  A sequence of \<open>move\<close> actions handled one after the other (the event loop runs one
  handler at a time); the emissions are collected in the order they were sent.
\<close>

fun run_moves :: "rooms \<Rightarrow> JoinRoomPayload list \<Rightarrow> rooms \<times> emission list" where
  "run_moves rs [] = (rs, [])"
| "run_moves rs (p # ps) =
     (case move_handler rs p of
        (rs', ev) \<Rightarrow> (case run_moves rs' ps of (rs'', evs) \<Rightarrow> (rs'', ev @ evs)))"

definition is_win :: "emission \<Rightarrow> bool" where
  "is_win e = (case snd e of Win u n p \<Rightarrow> True | _ \<Rightarrow> False)"

definition is_draw :: "emission \<Rightarrow> bool" where
  "is_draw e = (case snd e of Draw r \<Rightarrow> True | _ \<Rightarrow> False)"

definition is_move :: "emission \<Rightarrow> bool" where
  "is_move e = (case snd e of Move m u \<Rightarrow> True | _ \<Rightarrow> False)"

section \<open>The typing race: lobby and race countdowns\<close>

subsection \<open>Data model\<close>

text \<open>
  Modelled from the spec: the \<open>TypeRaceGame\<close> document model is imported by the server
  and not defined in \<open>server.ts\<close>. A game document holds its players, each with an
  identifier and the party-leader flag, the start time and the two phase flags. The
  collaborator's store is a table from game identifier to document. \<open>findById\<close> answers
  with the stored document or with none. \<open>save\<close> is awaited by its caller and has two
  outcomes: fulfilled, and then the document is stored under the identifier it was loaded
  by, or rejected, and then the store is left as it was.
\<close>

record player =
  player_id :: string
  isPartyLeader :: bool

record game =
  players :: "player list"
  startTime :: int
  isOpen :: bool
  isOver :: bool

type_synonym games = "string \<rightharpoonup> game"

datatype outcome = Fulfilled | Rejected

definition findById :: "games \<Rightarrow> string \<Rightarrow> game option" where
  "findById d gameId = d gameId"

definition save :: "outcome \<Rightarrow> games \<Rightarrow> string \<Rightarrow> game \<Rightarrow> games option" where
  "save out d gameId g = (case out of Rejected \<Rightarrow> None | Fulfilled \<Rightarrow> Some (d(gameId \<mapsto> g)))"

text \<open>\<open>game?.players.id(playerId)\<close>: the player with that identifier, if any.\<close>

definition players_id :: "game option \<Rightarrow> string \<Rightarrow> player option" where
  "players_id g playerId =
     (case g of None \<Rightarrow> None | Some gm \<Rightarrow> find (\<lambda>p. player_id p = playerId) (players gm))"

text \<open>
  The \<open>countDown\<close> field of a \<open>timer\<close> event is a number in the lobby countdown and
  the formatted remaining time in the race countdown.
\<close>

datatype count = Num int | Txt string

datatype race_event =
    Timer count string
  | UpdateGame "game option"

type_synonym race_emission = "string \<times> race_event"

text \<open>
  An interval created by \<open>setInterval\<close> is its callback's closure: the counter, the
  captured game document and the game identifier. The lobby callback captures the
  handler's \<open>game\<close> variable, which the callback tests again before closing the game.
\<close>

datatype interval =
    Lobby int "game option" string
  | Race int game string

text \<open>
  An \<open>async\<close> function stops at each \<open>await\<close> and goes on when the awaited call
  settles. A task is such a stopped function with what it still holds: the lobby callback
  waiting for the save of line 201, \<open>startGameClock\<close> waiting for the load of line 232 or
  for the save of line 236, and the race callback waiting for the save of line 249.
\<close>

datatype task =
    LobbyClose nat game string
  | ClockLoad string
  | ClockSave game string
  | RaceEnd nat game string

text \<open>
  The server: the collaborator's store, the active intervals under their handles in the
  order they were created, the next free handle, the stopped tasks under their
  identifiers, the next free task identifier, and everything emitted so far.
\<close>

record server =
  db :: games
  intervals :: "(nat \<times> interval) list"
  next_handle :: nat
  pending :: "(nat \<times> task) list"
  next_task :: nat
  sent :: "race_emission list"

definition emit :: "race_emission list \<Rightarrow> server \<Rightarrow> server" where
  "emit es s = s\<lparr>sent := sent s @ es\<rparr>"

definition setInterval :: "interval \<Rightarrow> server \<Rightarrow> server" where
  "setInterval i s =
     s\<lparr>intervals := intervals s @ [(next_handle s, i)], next_handle := Suc (next_handle s)\<rparr>"

definition clearInterval :: "nat \<Rightarrow> server \<Rightarrow> server" where
  "clearInterval h s = s\<lparr>intervals := filter (\<lambda>e. fst e \<noteq> h) (intervals s)\<rparr>"

definition set_interval :: "nat \<Rightarrow> interval \<Rightarrow> server \<Rightarrow> server" where
  "set_interval h i s =
     s\<lparr>intervals := map (\<lambda>e. if fst e = h then (h, i) else e) (intervals s)\<rparr>"

text \<open>The function stops at an \<open>await\<close>: the task is kept until the call settles.\<close>

definition await :: "task \<Rightarrow> server \<Rightarrow> server" where
  "await t s = s\<lparr>pending := pending s @ [(next_task s, t)], next_task := Suc (next_task s)\<rparr>"

subsection \<open>The race countdown\<close>

text \<open>
  \<open>startGameClock\<close> up to its first \<open>await\<close>: the load is issued and the function
  stops. No check is made for an interval that already runs for the game.
\<close>

definition startGameClock :: "string \<Rightarrow> server \<Rightarrow> server" where
  "startGameClock gameId s = await (ClockLoad gameId) s"

text \<open>
  \<open>startGameClock\<close> after the load of line 232, at time \<open>now\<close>. A rejected load is
  caught by the \<open>catch\<close> of line 254, which only logs. Nothing more happens for a game
  that is not found. Otherwise the start time is set and the save of line 236 is issued.
\<close>

definition clock_loaded :: "outcome \<Rightarrow> int \<Rightarrow> string \<Rightarrow> server \<Rightarrow> server" where
  "clock_loaded out now gameId s =
     (case out of
        Rejected \<Rightarrow> s
      | Fulfilled \<Rightarrow>
          (case findById (db s) gameId of
             None \<Rightarrow> s
           | Some g \<Rightarrow> await (ClockSave (g\<lparr>startTime := now\<rparr>) gameId) s))"

text \<open>
  \<open>startGameClock\<close> after the save of line 236. A rejected save is caught by the
  \<open>catch\<close> of line 254, which only logs, and no interval is created. After a fulfilled
  save the interval counting from 120 is created.
\<close>

definition clock_saved :: "outcome \<Rightarrow> game \<Rightarrow> string \<Rightarrow> server \<Rightarrow> server" where
  "clock_saved out g gameId s =
     (case save out (db s) gameId g of
        None \<Rightarrow> s
      | Some d \<Rightarrow> setInterval (Race 120 g gameId) (s\<lparr>db := d\<rparr>))"

text \<open>
  One firing of the race callback under handle \<open>h\<close>, up to its \<open>await\<close> if it has one.
  While \<open>time\<close> is not negative a \<open>timer\<close> event with the formatted time is sent and
  \<open>time\<close> decreases. Otherwise the captured game is marked over, the save of line 249
  is issued and the callback stops; the interval stays active and its counter is as it
  was. The formatting function \<open>calculateTime\<close> is imported and not defined in
  \<open>server.ts\<close>; it is a parameter.
\<close>

definition race_tick ::
  "(int \<Rightarrow> string) \<Rightarrow> nat \<Rightarrow> int \<Rightarrow> game \<Rightarrow> string \<Rightarrow> server \<Rightarrow> server" where
  "race_tick calculateTime h time g gameId s =
     (if 0 \<le> time
      then set_interval h (Race (time - 1) g gameId)
             (emit [(gameId, Timer (Txt (calculateTime time)) ''Time Remaining'')] s)
      else (let g' = g\<lparr>isOver := True\<rparr>
            in await (RaceEnd h g' gameId) (set_interval h (Race time g' gameId) s)))"

text \<open>
  The race callback after the save of line 249. The callback has no \<open>try\<close> of its own:
  after a rejected save the rest of it does not run, so nothing is sent and the interval
  is not cleared. After a fulfilled save the snapshot is sent and the interval is cleared.
\<close>

definition race_ended :: "outcome \<Rightarrow> nat \<Rightarrow> game \<Rightarrow> string \<Rightarrow> server \<Rightarrow> server" where
  "race_ended out h g gameId s =
     (case save out (db s) gameId g of
        None \<Rightarrow> s
      | Some d \<Rightarrow> clearInterval h (emit [(gameId, UpdateGame (Some g))] (s\<lparr>db := d\<rparr>)))"

subsection \<open>The lobby countdown\<close>

text \<open>
  One firing of the lobby callback under handle \<open>h\<close>, up to its \<open>await\<close> if it has
  one. While \<open>countDown\<close> is not negative a \<open>timer\<close> event with the count and the
  snapshot are sent and the count decreases. Otherwise, if there is a game, the captured
  game is marked closed, the save of line 201 is issued and the callback stops; the
  interval stays active and its counter is as it was.
\<close>

definition lobby_tick :: "nat \<Rightarrow> int \<Rightarrow> game option \<Rightarrow> string \<Rightarrow> server \<Rightarrow> server" where
  "lobby_tick h countDown g gameId s =
     (if 0 \<le> countDown
      then set_interval h (Lobby (countDown - 1) g gameId)
             (emit [(gameId, Timer (Num countDown) ''Starting Game in...''),
                    (gameId, UpdateGame g)] s)
      else (case g of
              None \<Rightarrow> s
            | Some gm \<Rightarrow>
                (let gm' = gm\<lparr>isOpen := False\<rparr>
                 in await (LobbyClose h gm' gameId)
                      (set_interval h (Lobby countDown (Some gm') gameId) s))))"

text \<open>
  The lobby callback after the save of line 201. After a rejected save the rest of the
  callback does not run: nothing is sent, the race clock is not started and the interval
  is not cleared. After a fulfilled save the snapshot is sent, \<open>startGameClock\<close> is
  called, which runs up to its load and is not awaited, and the interval is cleared.
\<close>

definition lobby_closed :: "outcome \<Rightarrow> nat \<Rightarrow> game \<Rightarrow> string \<Rightarrow> server \<Rightarrow> server" where
  "lobby_closed out h gm gameId s =
     (case save out (db s) gameId gm of
        None \<Rightarrow> s
      | Some d \<Rightarrow>
          clearInterval h
            (startGameClock gameId
               (emit [(gameId, UpdateGame (Some gm))] (s\<lparr>db := d\<rparr>))))"

subsection \<open>The event loop\<close>

text \<open>
  The event loop runs one piece of code at a time. Either the interval under a handle
  fires, or the call awaited by a task settles, with its outcome and at some time, and
  the task goes on. A handle that is not active fires nothing, and so does a task
  identifier that is not pending. The time is the one \<open>startGameClock\<close> reads after
  its load.
\<close>

datatype loop_event = Fire nat | Settle nat outcome int

definition fire :: "(int \<Rightarrow> string) \<Rightarrow> nat \<Rightarrow> server \<Rightarrow> server" where
  "fire calculateTime h s =
     (case map_of (intervals s) h of
        None \<Rightarrow> s
      | Some (Lobby countDown g gameId) \<Rightarrow> lobby_tick h countDown g gameId s
      | Some (Race time g gameId) \<Rightarrow> race_tick calculateTime h time g gameId s)"

definition resume :: "task \<Rightarrow> outcome \<Rightarrow> int \<Rightarrow> server \<Rightarrow> server" where
  "resume t out now s =
     (case t of
        LobbyClose h gm gameId \<Rightarrow> lobby_closed out h gm gameId s
      | ClockLoad gameId \<Rightarrow> clock_loaded out now gameId s
      | ClockSave g gameId \<Rightarrow> clock_saved out g gameId s
      | RaceEnd h g gameId \<Rightarrow> race_ended out h g gameId s)"

definition settle :: "nat \<Rightarrow> outcome \<Rightarrow> int \<Rightarrow> server \<Rightarrow> server" where
  "settle k out now s =
     (case map_of (pending s) k of
        None \<Rightarrow> s
      | Some t \<Rightarrow> resume t out now (s\<lparr>pending := filter (\<lambda>e. fst e \<noteq> k) (pending s)\<rparr>))"

definition step :: "(int \<Rightarrow> string) \<Rightarrow> server \<Rightarrow> loop_event \<Rightarrow> server" where
  "step calculateTime s ev =
     (case ev of
        Fire h \<Rightarrow> fire calculateTime h s
      | Settle k out now \<Rightarrow> settle k out now s)"

text \<open>A schedule: the events of the loop in the order they happen.\<close>

definition run :: "(int \<Rightarrow> string) \<Rightarrow> server \<Rightarrow> loop_event list \<Rightarrow> server" where
  "run calculateTime s evs = foldl (step calculateTime) s evs"

text \<open>
  What one event sends, and what the firings of one handle send in the course of a
  schedule.
\<close>

definition emitted :: "(int \<Rightarrow> string) \<Rightarrow> server \<Rightarrow> loop_event \<Rightarrow> race_emission list" where
  "emitted calculateTime s ev = drop (length (sent s)) (sent (step calculateTime s ev))"


text \<open>
  The \<open>timer\<close> handler. Without a player (game or player not found) a zero count and
  the snapshot are sent. When the player is the party leader, the lobby interval is
  created, counting from 5. A player who is not the leader gets no answer. The load of
  line 178 is answered from the store as it is when the request is handled, with the game
  or with none.
\<close>

definition timer_handler :: "string \<Rightarrow> string \<Rightarrow> server \<Rightarrow> server" where
  "timer_handler playerId gameId s =
     (let g = findById (db s) gameId;
          pl = players_id g playerId;
          s1 = (case pl of
                  None \<Rightarrow>
                    emit [(gameId, Timer (Num 0) ''There is no Player, Try Again''),
                          (gameId, UpdateGame g)] s
                | Some p \<Rightarrow> s)
      in (case pl of
            None \<Rightarrow> s1
          | Some p \<Rightarrow> if isPartyLeader p then setInterval (Lobby 5 g gameId) s1 else s1))"

text \<open>The handles of the active race intervals of a game.\<close>

definition race_handles :: "server \<Rightarrow> string \<Rightarrow> nat list" where
  "race_handles s gameId =
     map fst (filter (\<lambda>e. case snd e of Race t g i \<Rightarrow> i = gameId | Lobby c g i \<Rightarrow> False)
                (intervals s))"

definition active :: "server \<Rightarrow> nat \<Rightarrow> bool" where
  "active s h = (map_of (intervals s) h \<noteq> None)"

subsection \<open>Well-formed servers\<close>

text \<open>
  Handles and task identifiers are handed out in increasing order. So every active
  interval has a handle below the next free one, every stopped task has an identifier
  below the next free one, and a stopped callback belongs to a handle below the next free
  one.
\<close>

fun task_handle :: "task \<Rightarrow> nat option" where
  "task_handle (LobbyClose h g gameId) = Some h"
| "task_handle (RaceEnd h g gameId) = Some h"
| "task_handle (ClockLoad gameId) = None"
| "task_handle (ClockSave g gameId) = None"

fun task_below :: "nat \<Rightarrow> task \<Rightarrow> bool" where
  "task_below n (LobbyClose h g gameId) = (h < n)"
| "task_below n (RaceEnd h g gameId) = (h < n)"
| "task_below n (ClockLoad gameId) = True"
| "task_below n (ClockSave g gameId) = True"

definition wf_server :: "server \<Rightarrow> bool" where
  "wf_server s =
     (list_all (\<lambda>e. fst e < next_handle s) (intervals s)
      \<and> list_all (\<lambda>e. fst e < next_task s \<and> task_below (next_handle s) (snd e)) (pending s))"

text \<open>
  The parts of an interval: its counter, the interval with another counter, and what a
  firing sends while the counter is not negative.
\<close>

fun counter :: "interval \<Rightarrow> int" where
  "counter (Lobby c g gameId) = c"
| "counter (Race t g gameId) = t"

fun with_counter :: "interval \<Rightarrow> int \<Rightarrow> interval" where
  "with_counter (Lobby c g gameId) n = Lobby n g gameId"
| "with_counter (Race t g gameId) n = Race n g gameId"

fun tick_out :: "(int \<Rightarrow> string) \<Rightarrow> interval \<Rightarrow> race_emission list" where
  "tick_out calculateTime (Lobby c g gameId) =
     [(gameId, Timer (Num c) ''Starting Game in...''), (gameId, UpdateGame g)]"
| "tick_out calculateTime (Race t g gameId) =
     [(gameId, Timer (Txt (calculateTime t)) ''Time Remaining'')]"





section \<open>Auxiliary notions and sample states\<close>

text \<open>
  The two move lists of a room, and the moves a user sent in a list of \<open>move\<close>
  actions.
\<close>

definition slot_moves :: "rooms \<Rightarrow> string \<Rightarrow> (int list \<times> int list) option" where
  "slot_moves rs rid = map_option (\<lambda>r. (moves (user1 r), moves (user2 r))) (rs rid)"

definition moves_by :: "string \<Rightarrow> JoinRoomPayload list \<Rightarrow> int list" where
  "moves_by z xs = map move (filter (\<lambda>p. payload_userId p = z) xs)"

text \<open>
  A room \<open>R1\<close> with two bound players and no moves yet, a room \<open>R2\<close> whose second
  slot is empty, and a room in which the first player holds a diagonal.
\<close>

definition slotA :: player_slot where
  "slotA = \<lparr>userId = Some ''userA'', username = ''Ann'', moves = []\<rparr>"

definition slotB :: player_slot where
  "slotB = \<lparr>userId = Some ''userB'', username = ''Bob'', moves = []\<rparr>"

definition slotEmpty :: player_slot where
  "slotEmpty = \<lparr>userId = None, username = [], moves = []\<rparr>"

definition room0 :: room where
  "room0 = \<lparr>user1 = slotA, user2 = slotB\<rparr>"

definition rooms0 :: rooms where
  "rooms0 = Map.empty(''R1'' \<mapsto> room0)"

definition rooms_half :: rooms where
  "rooms_half = Map.empty(''R2'' \<mapsto> \<lparr>user1 = slotA, user2 = slotEmpty\<rparr>)"

definition room_diag :: room where
  "room_diag = \<lparr>user1 = slotA\<lparr>moves := [4, 0, 8]\<rparr>, user2 = slotB\<lparr>moves := [1, 2]\<rparr>\<rparr>"

definition rooms_diag :: rooms where
  "rooms_diag = Map.empty(''R1'' \<mapsto> room_diag)"

definition mv :: "string \<Rightarrow> int \<Rightarrow> JoinRoomPayload" where
  "mv u m = \<lparr>roomId = ''R1'', payload_userId = u, payload_username = [], move = m\<rparr>"

definition mv2 :: "string \<Rightarrow> int \<Rightarrow> JoinRoomPayload" where
  "mv2 u m = \<lparr>roomId = ''R2'', payload_userId = u, payload_username = [], move = m\<rparr>"

text \<open>
  Two games of nine moves with the players taking turns. In the first nobody completes
  a line. In the second \<open>userB\<close> completes the diagonal with the sixth move and play
  goes on until the board is full.
\<close>

definition drawn_game :: "JoinRoomPayload list" where
  "drawn_game =
     [mv ''userA'' 0, mv ''userB'' 1, mv ''userA'' 2, mv ''userB'' 4, mv ''userA'' 3,
      mv ''userB'' 5, mv ''userA'' 7, mv ''userB'' 6, mv ''userA'' 8]"

definition win_then_draw :: "JoinRoomPayload list" where
  "win_then_draw =
     [mv ''userA'' 1, mv ''userB'' 0, mv ''userA'' 2, mv ''userB'' 4, mv ''userA'' 3,
      mv ''userB'' 8, mv ''userA'' 5, mv ''userB'' 7, mv ''userA'' 6]"

text \<open>
  A stored game with a party leader \<open>p1\<close> and a second player \<open>p2\<close>, and a server
  that holds it and has no intervals and no stopped tasks yet. The sample formatting
  function gives the same text for every time.
\<close>

definition game1 :: game where
  "game1 = \<lparr>players = [\<lparr>player_id = ''p1'', isPartyLeader = True\<rparr>,
                         \<lparr>player_id = ''p2'', isPartyLeader = False\<rparr>],
            startTime = 0, isOpen = True, isOver = False\<rparr>"

definition server0 :: server where
  "server0 = \<lparr>db = Map.empty(''g1'' \<mapsto> game1), intervals = [], next_handle = 0,
              pending = [], next_task = 0, sent = []\<rparr>"

definition flat_time :: "int \<Rightarrow> string" where
  "flat_time t = ''0:00''"

text \<open>
  The race clock of the sample game: started and loaded, then saved so that its interval
  runs under handle 0, then after the 121 firings that count, then with the next firing
  stopped at its save. And the same game with the race clock started twice.
\<close>

definition clock_waiting :: server where
  "clock_waiting = step flat_time (startGameClock ''g1'' server0) (Settle 0 Fulfilled 1000)"

definition racing0 :: server where
  "racing0 = step flat_time clock_waiting (Settle 1 Fulfilled 1001)"



definition racing_twice :: server where
  "racing_twice =
     run flat_time (startGameClock ''g1'' (startGameClock ''g1'' server0))
       [Settle 0 Fulfilled 1000, Settle 1 Fulfilled 2000,
        Settle 2 Fulfilled 1001, Settle 3 Fulfilled 2001]"




section \<open>Properties of the move handler\<close>

subsection \<open>The win check\<close>

lemma covers_iff: "covers ms t \<longleftrightarrow> set t \<subseteq> set ms"
  by (auto simp: covers_def list_all_iff)

lemma CheckWin_isWin:
  assumes "rs rid = Some r"
  shows "isWin (CheckWin rs rid uid) \<longleftrightarrow>
    (\<exists>t\<in>set winPatterns. set t \<subseteq> set (player_moves r uid))"
proof -
  have "isWin (CheckWin rs rid uid) \<longleftrightarrow> find (covers (player_moves r uid)) winPatterns \<noteq> None"
    using assms by (simp add: CheckWin_def GetGameDetail_def split: option.split)
  also have "\<dots> \<longleftrightarrow> (\<exists>t\<in>set winPatterns. set t \<subseteq> set (player_moves r uid))"
    by (auto simp: find_None_iff covers_iff)
  finally show ?thesis .
qed

text \<open>
  Claim C1. For any room table, room and user, the win check answers \<open>isWin\<close> exactly
  when the moves recorded for that user contain one of the eight winning triples of the
  board: the three rows, the three columns and the two diagonals. For every other set of
  moves the answer is \<open>isWin = False\<close>.
\<close>

theorem CheckWin_iff_superset:
  assumes "rs rid = Some r"
  shows "isWin (CheckWin rs rid uid) \<longleftrightarrow>
     (\<exists>t \<in> {{0, 1, 2}, {3, 4, 5}, {6, 7, 8}, {0, 3, 6}, {1, 4, 7}, {2, 5, 8}, {0, 4, 8}, {2, 4, 6}}.
        t \<subseteq> set (player_moves r uid))"
  using CheckWin_isWin [of rs rid r uid, OF assms] by (simp add: winPatterns_def)

text \<open>
  In the sample room the first player holds the diagonal 0, 4, 8 and has won; the second
  player holds 1 and 2 only and has not.
\<close>

theorem CheckWin_iff_superset_witness:
  "rooms_diag ''R1'' = Some room_diag
   \<and> isWin (CheckWin rooms_diag ''R1'' ''userA'')
   \<and> \<not> isWin (CheckWin rooms_diag ''R1'' ''userB'')"
proof -
  have h: "rooms_diag ''R1'' = Some room_diag" by (simp add: rooms_diag_def)
  have a: "player_moves room_diag ''userA'' = [4, 0, 8]"
    and b: "player_moves room_diag ''userB'' = [1, 2]"
    by (simp_all add: player_moves_def room_diag_def slotA_def slotB_def)
  have "isWin (CheckWin rooms_diag ''R1'' ''userA'')"
    unfolding CheckWin_iff_superset [of rooms_diag "''R1''" room_diag "''userA''", OF h] a
    by simp
  moreover have "\<not> isWin (CheckWin rooms_diag ''R1'' ''userB'')"
    unfolding CheckWin_iff_superset [of rooms_diag "''R1''" room_diag "''userB''", OF h] b
    by simp
  ultimately show ?thesis using h by simp
qed

subsection \<open>One step of the handler\<close>

lemma move_body_room:
  assumes "rs (roomId p) = Some r"
  shows "move_body rs p =
    Inr (rs(roomId p \<mapsto> fst (record_move r p)),
         leave_notice r p @ [(roomId p, Move (move p) (payload_userId p))]
         @ verdict (rs(roomId p \<mapsto> fst (record_move r p))) (fst (record_move r p)) p
             (fst (snd (record_move r p))) (snd (snd (record_move r p))))"
  using assms by (simp add: move_body_def GetGameDetail_def Let_def split: prod.split)

lemma move_body_absent: "rs (roomId p) = None \<Longrightarrow> move_body rs p = Inl TypeError"
  by (simp add: move_body_def GetGameDetail_def)

lemma move_handler_room:
  assumes "rs (roomId p) = Some r"
  shows "move_handler rs p =
    (rs(roomId p \<mapsto> fst (record_move r p)),
         leave_notice r p @ [(roomId p, Move (move p) (payload_userId p))]
         @ verdict (rs(roomId p \<mapsto> fst (record_move r p))) (fst (record_move r p)) p
             (fst (snd (record_move r p))) (snd (snd (record_move r p))))"
  using assms by (simp add: move_handler_def move_body_room)

lemma move_handler_absent: "rs (roomId p) = None \<Longrightarrow> move_handler rs p = (rs, [])"
  by (simp add: move_handler_def move_body_absent)

lemma leave_notice_no_verdict: "e \<in> set (leave_notice r p) \<Longrightarrow> \<not> is_win e \<and> \<not> is_draw e \<and> \<not> is_move e"
  by (auto simp: leave_notice_def is_win_def is_draw_def is_move_def split: if_splits)

lemma record_move_user1:
  "userId (user1 r) = Some (payload_userId p) \<Longrightarrow>
   record_move r p =
     (r\<lparr>user1 := (user1 r)\<lparr>moves := moves (user1 r) @ [move p]\<rparr>\<rparr>,
      Suc (length (moves (user1 r))), username (user1 r))"
  by (simp add: record_move_def push_move_def Let_def)

lemma record_move_user2:
  "userId (user1 r) \<noteq> Some (payload_userId p) \<Longrightarrow>
   record_move r p =
     (r\<lparr>user2 := (user2 r)\<lparr>moves := moves (user2 r) @ [move p]\<rparr>\<rparr>,
      Suc (length (moves (user2 r))), username (user2 r))"
  by (simp add: record_move_def push_move_def Let_def)

lemma record_move_count:
  "fst (snd (record_move r p)) = length (player_moves (fst (record_move r p)) (payload_userId p))"
  by (simp add: record_move_def push_move_def Let_def player_moves_def)

lemma record_move_player_moves:
  "player_moves (fst (record_move r p)) (payload_userId p) = player_moves r (payload_userId p) @ [move p]"
  by (simp add: record_move_def push_move_def Let_def player_moves_def)

lemma record_move_total:
  "length (moves (user1 (fst (record_move r p)))) + length (moves (user2 (fst (record_move r p))))
   = Suc (length (moves (user1 r)) + length (moves (user2 r)))"
  by (simp add: record_move_def push_move_def Let_def)

lemma record_move_ids:
  "userId (user1 (fst (record_move r p))) = userId (user1 r)"
  "userId (user2 (fst (record_move r p))) = userId (user2 r)"
  by (simp_all add: record_move_def push_move_def Let_def)

text \<open>
  Claim C3. Within the handling of one \<open>move\<close> action the room-wide move notice is
  sent before the win and draw checks: wherever a win or draw notice stands in the
  emissions of the action, the move notice of that very move stands before it.
\<close>

theorem move_notice_before_verdict:
  assumes "move_handler rs p = (rs', evs)"
    and "j < length evs"
    and "is_win (evs ! j) \<or> is_draw (evs ! j)"
  shows "\<exists>i<j. evs ! i = (roomId p, Move (move p) (payload_userId p))"
proof (cases "rs (roomId p)")
  case None
  with assms show ?thesis by (simp add: move_handler_absent)
next
  case (Some r)
  define pre where "pre = leave_notice r p"
  define post where "post = verdict rs' (fst (record_move r p)) p
             (fst (snd (record_move r p))) (snd (snd (record_move r p)))"
  have evs: "evs = pre @ (roomId p, Move (move p) (payload_userId p)) # post"
    using assms(1) Some by (auto simp add: move_handler_room pre_def post_def)
  have "\<not> j < length pre"
  proof
    assume "j < length pre"
    then have "evs ! j \<in> set (leave_notice r p)"
      by (simp add: evs nth_append pre_def)
    with assms(3) show False using leave_notice_no_verdict by blast
  qed
  moreover have "j \<noteq> length pre"
    using assms(3) by (auto simp: evs nth_append is_win_def is_draw_def)
  ultimately have "length pre < j" by simp
  moreover have "evs ! length pre = (roomId p, Move (move p) (payload_userId p))"
    by (simp add: evs)
  ultimately show ?thesis by blast
qed

text \<open>
  The third move of the first player along the top row: the emissions are the move
  notice followed by the win notice.
\<close>

theorem move_notice_before_verdict_witness:
  "is_win (snd (move_handler (fst (run_moves rooms0 [mv ''userA'' 0, mv ''userA'' 1])) (mv ''userA'' 2)) ! 1)
   \<and> (\<exists>i<1. snd (move_handler (fst (run_moves rooms0 [mv ''userA'' 0, mv ''userA'' 1])) (mv ''userA'' 2)) ! i
          = (roomId (mv ''userA'' 2), Move (move (mv ''userA'' 2)) (payload_userId (mv ''userA'' 2))))"
proof -
  define rs where "rs = fst (run_moves rooms0 [mv ''userA'' 0, mv ''userA'' 1])"
  define p where "p = mv ''userA'' 2"
  have ev: "snd (move_handler rs p) =
      [(''R1'', Move 2 ''userA''), (''R1'', Win ''userA'' ''Ann'' (Some [0, 1, 2]))]"
    unfolding rs_def p_def by code_simp
  have h1: "move_handler rs p = (fst (move_handler rs p), snd (move_handler rs p))" by simp
  have h2: "1 < length (snd (move_handler rs p))" by (simp add: ev)
  have h3: "is_win (snd (move_handler rs p) ! 1) \<or> is_draw (snd (move_handler rs p) ! 1)"
    by (simp add: ev is_win_def)
  have h4: "is_win (snd (move_handler rs p) ! 1)" by (simp add: ev is_win_def)
  show ?thesis
    using h4 move_notice_before_verdict [OF h1 h2 h3] by (simp add: rs_def p_def)
qed

text \<open>
  Claim C10. When a slot of the addressed room has no user, the \<open>userLeave\<close> notice
  is sent to the room and the handler carries on: the move is pushed to one of the two
  move lists, the other list is untouched, and the move notice follows the
  \<open>userLeave\<close> notice.
\<close>

theorem userLeave_does_not_stop_move:
  assumes "rs (roomId p) = Some r"
    and "falsy (userId (user1 r)) \<or> falsy (userId (user2 r))"
  shows "\<exists>r' rest.
      move_handler rs p =
        (rs(roomId p \<mapsto> r'),
         (roomId p, UserLeave) # (roomId p, Move (move p) (payload_userId p)) # rest)
    \<and> (moves (user1 r') = moves (user1 r) @ [move p] \<and> moves (user2 r') = moves (user2 r)
        \<or> moves (user1 r') = moves (user1 r) \<and> moves (user2 r') = moves (user2 r) @ [move p])"
proof (intro exI conjI)
  show "move_handler rs p =
        (rs(roomId p \<mapsto> fst (record_move r p)),
         (roomId p, UserLeave) # (roomId p, Move (move p) (payload_userId p))
         # verdict (rs(roomId p \<mapsto> fst (record_move r p))) (fst (record_move r p)) p
             (fst (snd (record_move r p))) (snd (snd (record_move r p))))"
    using assms by (simp add: move_handler_room leave_notice_def)
  show "moves (user1 (fst (record_move r p))) = moves (user1 r) @ [move p]
          \<and> moves (user2 (fst (record_move r p))) = moves (user2 r)
        \<or> moves (user1 (fst (record_move r p))) = moves (user1 r)
          \<and> moves (user2 (fst (record_move r p))) = moves (user2 r) @ [move p]"
    by (cases "userId (user1 r) = Some (payload_userId p)")
      (simp_all add: record_move_user1 record_move_user2)
qed

text \<open>
  A move of the only bound player of room \<open>R2\<close>.
\<close>

theorem userLeave_does_not_stop_move_witness:
  "\<exists>r' rest.
      move_handler rooms_half (mv2 ''userA'' 4) =
        (rooms_half(''R2'' \<mapsto> r'), (''R2'', UserLeave) # (''R2'', Move 4 ''userA'') # rest)
    \<and> (moves (user1 r') = [4] \<and> moves (user2 r') = []
        \<or> moves (user1 r') = [] \<and> moves (user2 r') = [4])"
proof -
  define r where "r = \<lparr>user1 = slotA, user2 = slotEmpty\<rparr>"
  have h1: "rooms_half (roomId (mv2 ''userA'' 4)) = Some r"
    by (simp add: rooms_half_def mv2_def r_def)
  have h2: "falsy (userId (user1 r)) \<or> falsy (userId (user2 r))"
    by (simp add: r_def slotEmpty_def falsy_def)
  show ?thesis
    using userLeave_does_not_stop_move [of rooms_half "mv2 ''userA'' 4" r, OF h1 h2]
    by (simp add: mv2_def r_def slotA_def slotEmpty_def)
qed

text \<open>
  Claim C7, as the handler has it. A move of a user who holds neither slot of the room
  is not refused: the body completes without an exception, the move is pushed to the
  move list of \<open>user2\<close>, slot \<open>user1\<close> is untouched and the move notice is sent.
\<close>

theorem unbound_player_move_goes_to_user2:
  assumes "rs (roomId p) = Some r"
    and "userId (user1 r) \<noteq> Some (payload_userId p)"
    and "userId (user2 r) \<noteq> Some (payload_userId p)"
  shows "\<exists>rs' evs r'.
      move_body rs p = Inr (rs', evs)
    \<and> rs' (roomId p) = Some r'
    \<and> moves (user2 r') = moves (user2 r) @ [move p]
    \<and> user1 r' = user1 r
    \<and> (roomId p, Move (move p) (payload_userId p)) \<in> set evs"
  using assms(1,2) by (simp add: move_body_room record_move_user2)

text \<open>
  A user \<open>userC\<close> who is in no slot of room \<open>R1\<close> sends move 4.
\<close>

theorem unbound_player_move_goes_to_user2_witness:
  "\<exists>rs' evs r'.
      move_body rooms0 (mv ''userC'' 4) = Inr (rs', evs)
    \<and> rs' ''R1'' = Some r'
    \<and> moves (user2 r') = moves (user2 room0) @ [4]
    \<and> user1 r' = user1 room0
    \<and> (''R1'', Move 4 ''userC'') \<in> set evs"
proof -
  have h1: "rooms0 (roomId (mv ''userC'' 4)) = Some room0" by (simp add: rooms0_def mv_def)
  have h2: "userId (user1 room0) \<noteq> Some (payload_userId (mv ''userC'' 4))"
    by (simp add: room0_def slotA_def mv_def)
  have h3: "userId (user2 room0) \<noteq> Some (payload_userId (mv ''userC'' 4))"
    by (simp add: room0_def slotB_def mv_def)
  show ?thesis
    using unbound_player_move_goes_to_user2 [of rooms0 "mv ''userC'' 4" room0, OF h1 h2 h3]
    by (simp add: mv_def)
qed

text \<open>
  Claim C7 as stated fails: the move of \<open>userC\<close>, who holds no slot, does not end in
  an error and changes the second slot's moves from none to the list holding 4.
\<close>

theorem stranger_move_counterexample:
  "userId (user1 room0) \<noteq> Some ''userC'' \<and> userId (user2 room0) \<noteq> Some ''userC''
   \<and> isl (move_body rooms0 (mv ''userC'' 4)) = False
   \<and> slot_moves rooms0 ''R1'' = Some ([], [])
   \<and> slot_moves (fst (move_handler rooms0 (mv ''userC'' 4))) ''R1'' = Some ([], [4])"
  by code_simp

subsection \<open>Runs of moves\<close>

lemma run_moves_append:
  "run_moves rs (ps @ qs) =
     (case run_moves rs ps of
        (rs1, e1) \<Rightarrow> (case run_moves rs1 qs of (rs2, e2) \<Rightarrow> (rs2, e1 @ e2)))"
  by (induction ps arbitrary: rs) (auto split: prod.splits)

lemma run_moves_single: "run_moves rs [p] = move_handler rs p"
  by (simp split: prod.splits)

lemma run_moves_snoc:
  "run_moves rs (xs @ [q]) =
     (fst (move_handler (fst (run_moves rs xs)) q),
      snd (run_moves rs xs) @ snd (move_handler (fst (run_moves rs xs)) q))"
  by (simp add: run_moves_append split: prod.splits)

lemma run_moves_Cons:
  "fst (run_moves rs (p # ps)) = fst (run_moves (fst (move_handler rs p)) ps)"
  "snd (run_moves rs (p # ps)) =
     snd (move_handler rs p) @ snd (run_moves (fst (move_handler rs p)) ps)"
  by (simp_all split: prod.splits)

lemma run_moves_room:
  assumes "rs rid = Some r" and "userId (user1 r) = Some a"
    and "\<forall>p\<in>set ps. roomId p = rid"
  shows "fst (run_moves rs ps) rid =
    Some (r\<lparr>user1 := (user1 r)\<lparr>moves := moves (user1 r)
                @ map move (filter (\<lambda>p. payload_userId p = a) ps)\<rparr>,
            user2 := (user2 r)\<lparr>moves := moves (user2 r)
                @ map move (filter (\<lambda>p. payload_userId p \<noteq> a) ps)\<rparr>\<rparr>)"
  using assms
proof (induction ps arbitrary: rs r)
  case Nil
  then show ?case by simp
next
  case (Cons p ps)
  have rid: "roomId p = rid" using Cons.prems(3) by simp
  have room: "rs (roomId p) = Some r" using Cons.prems(1) rid by simp
  define r1 where "r1 = fst (record_move r p)"
  obtain evs where step: "move_handler rs p = (rs(rid \<mapsto> r1), evs)"
    using move_handler_room [of rs p r] room rid by (simp add: r1_def)
  have a1: "userId (user1 r1) = Some a"
    by (simp add: r1_def record_move_ids Cons.prems(2))
  have "fst (run_moves (rs(rid \<mapsto> r1)) ps) rid =
    Some (r1\<lparr>user1 := (user1 r1)\<lparr>moves := moves (user1 r1)
                @ map move (filter (\<lambda>p. payload_userId p = a) ps)\<rparr>,
            user2 := (user2 r1)\<lparr>moves := moves (user2 r1)
                @ map move (filter (\<lambda>p. payload_userId p \<noteq> a) ps)\<rparr>\<rparr>)"
  proof (rule Cons.IH)
    show "(rs(rid \<mapsto> r1)) rid = Some r1" by simp
    show "userId (user1 r1) = Some a" by (rule a1)
    show "\<forall>p\<in>set ps. roomId p = rid" using Cons.prems(3) by simp
  qed
  moreover have "fst (run_moves rs (p # ps)) = fst (run_moves (rs(rid \<mapsto> r1)) ps)"
    by (simp add: step split: prod.splits)
  ultimately show ?case
    using Cons.prems(2)
    by (cases "payload_userId p = a")
      (simp_all add: r1_def record_move_user1 record_move_user2)
qed

lemma run_player_moves:
  assumes "rs rid = Some r" and "userId (user1 r) = Some a" and "a \<noteq> b"
    and "moves (user1 r) = []" and "moves (user2 r) = []"
    and "\<forall>p\<in>set xs. roomId p = rid \<and> (payload_userId p = a \<or> payload_userId p = b)"
    and "z = a \<or> z = b"
  shows "\<exists>r'. fst (run_moves rs xs) rid = Some r' \<and> player_moves r' z = moves_by z xs
           \<and> length (moves (user1 r')) + length (moves (user2 r')) = length xs"
proof -
  have eq: "filter (\<lambda>p. payload_userId p \<noteq> a) xs = filter (\<lambda>p. payload_userId p = b) xs"
    using assms(3,6) by (intro filter_cong) auto
  have "fst (run_moves rs xs) rid =
    Some (r\<lparr>user1 := (user1 r)\<lparr>moves := moves (user1 r)
                @ map move (filter (\<lambda>p. payload_userId p = a) xs)\<rparr>,
            user2 := (user2 r)\<lparr>moves := moves (user2 r)
                @ map move (filter (\<lambda>p. payload_userId p \<noteq> a) xs)\<rparr>\<rparr>)"
    using run_moves_room [of rs rid r a xs] assms(1,2,6) by simp
  moreover have "length (filter (\<lambda>p. payload_userId p = a) xs)
      + length (filter (\<lambda>p. payload_userId p \<noteq> a) xs) = length xs"
    by (rule sum_length_filter_compl)
  ultimately show ?thesis
    using assms(2,3,4,5,7) eq by (auto simp: player_moves_def moves_by_def)
qed

lemma step_events_in_run:
  "set (snd (move_handler (fst (run_moves rs xs)) q)) \<subseteq> set (snd (run_moves rs (xs @ q # ys)))"
proof -
  have "xs @ q # ys = (xs @ [q]) @ ys" by simp
  then have "run_moves rs (xs @ q # ys) =
     (case run_moves rs (xs @ [q]) of
        (rs1, e1) \<Rightarrow> (case run_moves rs1 ys of (rs2, e2) \<Rightarrow> (rs2, e1 @ e2)))"
    using run_moves_append [of rs "xs @ [q]" ys] by simp
  then show ?thesis
    by (auto simp: run_moves_snoc split: prod.splits)
qed

lemma run_moves_keeps_rooms:
  "rs x \<noteq> None \<Longrightarrow> fst (run_moves rs ps) x \<noteq> None"
proof (induction ps arbitrary: rs)
  case Nil
  then show ?case by simp
next
  case (Cons p ps)
  have "fst (move_handler rs p) x \<noteq> None"
  proof (cases "rs (roomId p)")
    case None
    then show ?thesis using Cons.prems by (simp add: move_handler_absent)
  next
    case (Some r)
    then show ?thesis using Cons.prems by (simp add: move_handler_room)
  qed
  then have "fst (run_moves (fst (move_handler rs p)) ps) x \<noteq> None"
    by (rule Cons.IH)
  then show ?case by (simp add: run_moves_Cons del: run_moves.simps)
qed

lemma step_emission_room:
  assumes "e \<in> set (snd (move_handler rs p))"
  shows "fst e = roomId p \<and> fst (move_handler rs p) (fst e) \<noteq> None"
proof (cases "rs (roomId p)")
  case None
  with assms show ?thesis by (simp add: move_handler_absent)
next
  case (Some r)
  with assms show ?thesis
    by (auto simp: move_handler_room leave_notice_def verdict_def Let_def split: if_splits)
qed

lemma run_emission_room:
  "e \<in> set (snd (run_moves rs ps)) \<Longrightarrow> fst (run_moves rs ps) (fst e) \<noteq> None"
proof (induction ps arbitrary: rs)
  case Nil
  then show ?case by simp
next
  case (Cons p ps)
  from Cons.prems consider "e \<in> set (snd (move_handler rs p))"
    | "e \<in> set (snd (run_moves (fst (move_handler rs p)) ps))"
    by (auto simp only: run_moves_Cons set_append)
  then show ?case
  proof cases
    case 1
    then have "fst (move_handler rs p) (fst e) \<noteq> None"
      using step_emission_room by blast
    then have "fst (run_moves (fst (move_handler rs p)) ps) (fst e) \<noteq> None"
      by (rule run_moves_keeps_rooms)
    then show ?thesis by (simp add: run_moves_Cons del: run_moves.simps)
  next
    case 2
    then have "fst (run_moves (fst (move_handler rs p)) ps) (fst e) \<noteq> None"
      by (rule Cons.IH)
    then show ?thesis by (simp add: run_moves_Cons del: run_moves.simps)
  qed
qed

text \<open>
  Claim C6, as the handler has it. The handler keeps no record that a game has ended.
  After a win or draw notice for a room, a further move addressed to that room is handled
  like any other: the body completes without an exception, the move is appended to the
  moves recorded for its sender, the room's total grows by one and the move notice is
  sent.
\<close>

theorem move_recorded_after_verdict:
  assumes "e \<in> set (snd (run_moves rs ps))" and "is_win e \<or> is_draw e"
    and "roomId q = fst e"
  shows "\<exists>r rs' evs r'.
      fst (run_moves rs ps) (roomId q) = Some r
    \<and> move_body (fst (run_moves rs ps)) q = Inr (rs', evs)
    \<and> rs' (roomId q) = Some r'
    \<and> player_moves r' (payload_userId q) = player_moves r (payload_userId q) @ [move q]
    \<and> length (moves (user1 r')) + length (moves (user2 r'))
        = Suc (length (moves (user1 r)) + length (moves (user2 r)))
    \<and> (roomId q, Move (move q) (payload_userId q)) \<in> set evs"
proof -
  have "fst (run_moves rs ps) (roomId q) \<noteq> None"
    using run_emission_room [OF assms(1)] assms(3) by simp
  then obtain r where r: "fst (run_moves rs ps) (roomId q) = Some r" by blast
  show ?thesis
    using r by (simp add: move_body_room record_move_player_moves record_move_total)
qed

text \<open>
  After the first player has won along the top row, the second player moves to 3.
\<close>

theorem move_recorded_after_verdict_witness:
  "\<exists>r rs' evs r'.
      fst (run_moves rooms0 [mv ''userA'' 0, mv ''userA'' 1, mv ''userA'' 2]) ''R1'' = Some r
    \<and> move_body (fst (run_moves rooms0 [mv ''userA'' 0, mv ''userA'' 1, mv ''userA'' 2]))
         (mv ''userB'' 3) = Inr (rs', evs)
    \<and> rs' ''R1'' = Some r'
    \<and> player_moves r' ''userB'' = player_moves r ''userB'' @ [3]
    \<and> length (moves (user1 r')) + length (moves (user2 r'))
        = Suc (length (moves (user1 r)) + length (moves (user2 r)))
    \<and> (''R1'', Move 3 ''userB'') \<in> set evs"
proof -
  define ps where "ps = [mv ''userA'' 0, mv ''userA'' 1, mv ''userA'' 2]"
  define e where "e = (''R1'', Win ''userA'' ''Ann'' (Some [0, 1, 2]))"
  have ev: "snd (run_moves rooms0 ps) =
      [(''R1'', Move 0 ''userA''), (''R1'', Move 1 ''userA''), (''R1'', Move 2 ''userA''), e]"
    unfolding ps_def e_def by code_simp
  have h1: "e \<in> set (snd (run_moves rooms0 ps))" by (simp add: ev)
  have h2: "is_win e \<or> is_draw e" by (simp add: e_def is_win_def)
  have h3: "roomId (mv ''userB'' 3) = fst e" by (simp add: e_def mv_def)
  show ?thesis
    using move_recorded_after_verdict [OF h1 h2 h3] by (simp add: ps_def mv_def)
qed

text \<open>
  Claim C6 as stated fails: the first player's third move is answered with a win notice,
  and the fourth move of the same player is handled without an error and extends the first
  slot's moves from 0, 1, 2 to 0, 1, 2, 3.
\<close>

theorem move_after_win_counterexample:
  "snd (run_moves rooms0 [mv ''userA'' 0, mv ''userA'' 1, mv ''userA'' 2]) =
      [(''R1'', Move 0 ''userA''), (''R1'', Move 1 ''userA''), (''R1'', Move 2 ''userA''),
       (''R1'', Win ''userA'' ''Ann'' (Some [0, 1, 2]))]
   \<and> slot_moves (fst (run_moves rooms0 [mv ''userA'' 0, mv ''userA'' 1, mv ''userA'' 2])) ''R1''
       = Some ([0, 1, 2], [])
   \<and> isl (move_body (fst (run_moves rooms0 [mv ''userA'' 0, mv ''userA'' 1, mv ''userA'' 2]))
            (mv ''userA'' 3)) = False
   \<and> slot_moves (fst (move_handler
          (fst (run_moves rooms0 [mv ''userA'' 0, mv ''userA'' 1, mv ''userA'' 2]))
          (mv ''userA'' 3))) ''R1''
       = Some ([0, 1, 2, 3], [])"
  by code_simp

subsection \<open>Nine moves on a fresh board\<close>

lemma seven_cells_hold_a_line:
  fixes S :: "int set"
  assumes "S \<subseteq> {0..8}" and "7 \<le> card S"
  shows "\<exists>t\<in>set winPatterns. set t \<subseteq> S"
proof (rule ccontr)
  assume no: "\<not> (\<exists>t\<in>set winPatterns. set t \<subseteq> S)"
  have "\<not> {0, 1, 2} \<subseteq> S" "\<not> {3, 4, 5} \<subseteq> S" "\<not> {6, 7, 8} \<subseteq> S"
    using no by (auto simp: winPatterns_def)
  then obtain x y z where x: "x \<in> {0, 1, 2}" "x \<notin> S" and y: "y \<in> {3, 4, 5}" "y \<notin> S"
    and z: "z \<in> {6, 7, 8}" "z \<notin> S"
    by blast
  have fin: "finite S" using assms(1) finite_subset by blast
  have "card {x, y, z} = 3" using x(1) y(1) z(1) by auto
  moreover have "{x, y, z} \<subseteq> {0..8} - S" using x y z by auto
  ultimately have "3 \<le> card ({0..8} - S)"
    by (metis card_mono finite_Diff finite_atLeastAtMost_int)
  moreover have "card ({0..8} - S) = card {0..8::int} - card S"
    using assms(1) fin by (simp add: card_Diff_subset)
  ultimately show False using assms(2) by simp
qed

lemma line_needs_three:
  assumes "t \<in> set winPatterns" and "set t \<subseteq> set ms"
  shows "3 \<le> length ms"
proof -
  have "card (set t) = 3" using assms(1) by (auto simp: winPatterns_def)
  then have "3 \<le> card (set ms)" using assms(2) by (metis card_mono List.finite_set)
  then show ?thesis using card_length [of ms] by linarith
qed

lemma step_win:
  assumes "rs (roomId q) = Some r" and "fst (move_handler rs q) (roomId q) = Some r'"
    and "t \<in> set winPatterns" and "set t \<subseteq> set (player_moves r' (payload_userId q))"
  shows "\<exists>e\<in>set (snd (move_handler rs q)). is_win e"
proof -
  have r': "r' = fst (record_move r q)"
    using assms(1,2) by (simp add: move_handler_room)
  have "3 \<le> fst (snd (record_move r q))"
    using line_needs_three [OF assms(3,4)] by (simp add: record_move_count r')
  moreover have "isWin (CheckWin (rs(roomId q \<mapsto> r')) (roomId q) (payload_userId q))"
    using assms(3,4) CheckWin_isWin [of "rs(roomId q \<mapsto> r')" "roomId q" r' "payload_userId q"]
    by auto
  ultimately show ?thesis
    using assms(1) by (simp add: move_handler_room verdict_def Let_def r' is_win_def)
qed

lemma step_draw:
  assumes "rs (roomId q) = Some r" and "fst (move_handler rs q) (roomId q) = Some r'"
    and "3 \<le> length (player_moves r' (payload_userId q))"
    and "\<not> (\<exists>t\<in>set winPatterns. set t \<subseteq> set (player_moves r' (payload_userId q)))"
    and "9 \<le> length (moves (user1 r')) + length (moves (user2 r'))"
  shows "\<exists>e\<in>set (snd (move_handler rs q)). is_draw e"
proof -
  have r': "r' = fst (record_move r q)"
    using assms(1,2) by (simp add: move_handler_room)
  have "3 \<le> fst (snd (record_move r q))"
    using assms(3) by (simp add: record_move_count r')
  moreover have "\<not> isWin (CheckWin (rs(roomId q \<mapsto> r')) (roomId q) (payload_userId q))"
    using assms(4) CheckWin_isWin [of "rs(roomId q \<mapsto> r')" "roomId q" r' "payload_userId q"]
    by auto
  ultimately show ?thesis
    using assms(1,5) by (simp add: move_handler_room verdict_def Let_def r' is_draw_def)
qed

lemma draw_step_facts:
  assumes "e \<in> set (snd (move_handler rs q))" and "is_draw e"
  shows "(\<forall>e'\<in>set (snd (move_handler rs q)). \<not> is_win e')
    \<and> \<not> isWin (CheckWin (fst (move_handler rs q)) (roomId q) (payload_userId q))
    \<and> (\<exists>r'. fst (move_handler rs q) (roomId q) = Some r'
          \<and> 9 \<le> length (moves (user1 r')) + length (moves (user2 r')))"
proof (cases "rs (roomId q)")
  case None
  with assms show ?thesis by (simp add: move_handler_absent)
next
  case (Some r)
  show ?thesis
    using assms Some
    by (auto simp: move_handler_room verdict_def Let_def is_draw_def is_win_def
        leave_notice_def split: if_splits)
qed

lemma no_draw_below_nine:
  assumes "rs rid = Some r" and "\<forall>p\<in>set xs. roomId p = rid"
    and "length (moves (user1 r)) + length (moves (user2 r)) + length xs < 9"
  shows "\<forall>e\<in>set (snd (run_moves rs xs)). \<not> is_draw e"
  using assms
proof (induction xs arbitrary: rs r)
  case Nil
  then show ?case by simp
next
  case (Cons p xs)
  have rid: "roomId p = rid" using Cons.prems(2) by simp
  have room: "rs (roomId p) = Some r" using Cons.prems(1) rid by simp
  define r1 where "r1 = fst (record_move r p)"
  have st: "fst (move_handler rs p) = rs(rid \<mapsto> r1)"
    using room rid by (simp add: move_handler_room r1_def)
  have tot: "length (moves (user1 r1)) + length (moves (user2 r1))
      = Suc (length (moves (user1 r)) + length (moves (user2 r)))"
    by (simp add: r1_def record_move_total)
  have here: "\<forall>e\<in>set (snd (move_handler rs p)). \<not> is_draw e"
  proof (intro ballI notI)
    fix e assume "e \<in> set (snd (move_handler rs p))" and "is_draw e"
    then obtain r' where "fst (move_handler rs p) (roomId p) = Some r'"
      and "9 \<le> length (moves (user1 r')) + length (moves (user2 r'))"
      using draw_step_facts by blast
    then show False using st rid tot Cons.prems(3) by simp
  qed
  have later: "\<forall>e\<in>set (snd (run_moves (rs(rid \<mapsto> r1)) xs)). \<not> is_draw e"
  proof (rule Cons.IH)
    show "(rs(rid \<mapsto> r1)) rid = Some r1" by simp
    show "\<forall>p\<in>set xs. roomId p = rid" using Cons.prems(2) by simp
    show "length (moves (user1 r1)) + length (moves (user2 r1)) + length xs < 9"
      using tot Cons.prems(3) by simp
  qed
  show ?case
    using here later st by (auto split: prod.splits)
qed

lemma moves_by_cells:
  assumes "distinct (map move ps)" and "set (map move ps) \<subseteq> {0..8}"
  shows "distinct (moves_by z ps)" and "set (moves_by z ps) \<subseteq> {0..8}"
  using assms by (auto simp: moves_by_def distinct_map_filter)

lemma moves_by_short_without_line:
  assumes "distinct (map move ps)" and "set (map move ps) \<subseteq> {0..8}"
    and "\<not> (\<exists>t\<in>set winPatterns. set t \<subseteq> set (moves_by z ps))"
  shows "length (moves_by z ps) \<le> 6"
proof (rule ccontr)
  assume "\<not> length (moves_by z ps) \<le> 6"
  then have "7 \<le> card (set (moves_by z ps))"
    using moves_by_cells(1) [OF assms(1,2), of z] by (simp add: distinct_card)
  then show False
    using seven_cells_hold_a_line [of "set (moves_by z ps)"] moves_by_cells(2) [OF assms(1,2), of z] assms(3)
    by blast
qed

text \<open>
  Claim C2, as the handler has it. Let nine moves with pairwise distinct indices from
  0 to 8 be sent to a room by its two bound players, in any order and any split, starting
  from empty move lists. Then at least one win or draw notice is sent. No draw notice is
  sent during the first eight moves. If the ninth move is answered with a draw notice,
  then it is not answered with a win notice and the win check for its sender on the final
  room finds no win. Since play is not stopped by a win, a run may hold several win
  notices, and a win notice followed later by a draw notice.
\<close>

theorem nine_moves_signal_end:
  assumes room: "rs rid = Some r"
    and ids: "userId (user1 r) = Some a" "userId (user2 r) = Some b" "a \<noteq> b"
    and fresh: "moves (user1 r) = []" "moves (user2 r) = []"
    and len: "length ps = 9"
    and addr: "\<forall>p\<in>set ps. roomId p = rid \<and> (payload_userId p = a \<or> payload_userId p = b)"
    and cells: "distinct (map move ps)" "set (map move ps) \<subseteq> {0..8}"
  shows "(\<exists>e\<in>set (snd (run_moves rs ps)). is_win e \<or> is_draw e)
    \<and> (\<forall>e\<in>set (snd (run_moves rs (butlast ps))). \<not> is_draw e)
    \<and> ((\<exists>e\<in>set (snd (move_handler (fst (run_moves rs (butlast ps))) (last ps))). is_draw e)
        \<longrightarrow> (\<forall>e\<in>set (snd (move_handler (fst (run_moves rs (butlast ps))) (last ps))). \<not> is_win e)
          \<and> \<not> isWin (CheckWin (fst (run_moves rs ps)) rid (payload_userId (last ps))))"
proof (intro conjI impI)
  have ne: "ps \<noteq> []" using len by auto
  have split_last: "ps = butlast ps @ [last ps]" using ne by simp
  have last_rid: "roomId (last ps) = rid" using addr last_in_set [OF ne] by simp
  show "\<forall>e\<in>set (snd (run_moves rs (butlast ps))). \<not> is_draw e"
  proof (rule no_draw_below_nine [of rs rid r])
    show "rs rid = Some r" by (rule room)
    show "\<forall>p\<in>set (butlast ps). roomId p = rid" using addr by (auto dest: in_set_butlastD)
    show "length (moves (user1 r)) + length (moves (user2 r)) + length (butlast ps) < 9"
      using fresh len by simp
  qed
  show "\<exists>e\<in>set (snd (run_moves rs ps)). is_win e \<or> is_draw e"
  proof (cases "\<exists>z. (z = a \<or> z = b) \<and> (\<exists>t\<in>set winPatterns. set t \<subseteq> set (moves_by z ps))")
    case True
    then obtain z t where z: "z = a \<or> z = b" and t: "t \<in> set winPatterns"
      and sub: "set t \<subseteq> set (moves_by z ps)" by blast
    have three: "3 \<le> length (moves_by z ps)" using line_needs_three [OF t sub] .
    have "\<exists>p\<in>set ps. payload_userId p = z"
    proof (rule ccontr)
      assume "\<not> (\<exists>p\<in>set ps. payload_userId p = z)"
      then have "moves_by z ps = []" by (simp add: moves_by_def filter_empty_conv)
      with three show False by simp
    qed
    then obtain xs q ys where ps: "ps = xs @ q # ys" and q: "payload_userId q = z"
      and ys: "\<forall>p\<in>set ys. payload_userId p \<noteq> z"
      using split_list_last_prop [of ps "\<lambda>p. payload_userId p = z"] by blast
    have pmz: "moves_by z (xs @ [q]) = moves_by z ps"
      using ys by (simp add: moves_by_def ps filter_empty_conv)
    have addr1: "\<forall>p\<in>set xs. roomId p = rid \<and> (payload_userId p = a \<or> payload_userId p = b)"
      and addr2: "\<forall>p\<in>set (xs @ [q]). roomId p = rid \<and> (payload_userId p = a \<or> payload_userId p = b)"
      using addr ps by auto
    have qrid: "roomId q = rid" using addr ps by simp
    obtain r1 where r1: "fst (run_moves rs xs) rid = Some r1"
      using run_player_moves [of rs rid r a b _ z] room ids(1,3) fresh addr1 z by auto
    obtain r2 where r2: "fst (run_moves rs (xs @ [q])) rid = Some r2"
      and pm2: "player_moves r2 z = moves_by z (xs @ [q])"
      using run_player_moves [of rs rid r a b "xs @ [q]" z] room ids(1,3) fresh addr2 z by auto
    have "\<exists>e\<in>set (snd (move_handler (fst (run_moves rs xs)) q)). is_win e"
    proof (rule step_win [of _ _ r1 r2 t])
      show "fst (run_moves rs xs) (roomId q) = Some r1" using r1 qrid by simp
      show "fst (move_handler (fst (run_moves rs xs)) q) (roomId q) = Some r2"
        using r2 qrid by (simp add: run_moves_snoc)
      show "t \<in> set winPatterns" by (rule t)
      show "set t \<subseteq> set (player_moves r2 (payload_userId q))"
        using sub pm2 pmz q by simp
    qed
    then show ?thesis
      using step_events_in_run [of rs xs q ys] ps by blast
  next
    case False
    then have noa: "\<not> (\<exists>t\<in>set winPatterns. set t \<subseteq> set (moves_by a ps))"
      and nob: "\<not> (\<exists>t\<in>set winPatterns. set t \<subseteq> set (moves_by b ps))" by blast+
    have la: "length (moves_by a ps) \<le> 6" using moves_by_short_without_line [OF cells noa] .
    have lb: "length (moves_by b ps) \<le> 6" using moves_by_short_without_line [OF cells nob] .
    have eq: "filter (\<lambda>p. payload_userId p \<noteq> a) ps = filter (\<lambda>p. payload_userId p = b) ps"
      using ids(3) addr by (intro filter_cong) auto
    have "length (filter (\<lambda>p. payload_userId p = a) ps)
      + length (filter (\<lambda>p. payload_userId p \<noteq> a) ps) = length ps"
      by (rule sum_length_filter_compl)
    then have sum: "length (moves_by a ps) + length (moves_by b ps) = 9"
      using eq len by (simp add: moves_by_def)
    define z where "z = payload_userId (last ps)"
    have z: "z = a \<or> z = b" using addr last_in_set [OF ne] unfolding z_def by simp
    have three: "3 \<le> length (moves_by z ps)" using z la lb sum by auto
    have noz: "\<not> (\<exists>t\<in>set winPatterns. set t \<subseteq> set (moves_by z ps))" using z noa nob by auto
    have addr1: "\<forall>p\<in>set (butlast ps). roomId p = rid \<and> (payload_userId p = a \<or> payload_userId p = b)"
      using addr by (auto dest: in_set_butlastD)
    obtain r1 where r1: "fst (run_moves rs (butlast ps)) rid = Some r1"
      using run_player_moves [of rs rid r a b _ z] room ids(1,3) fresh addr1 z by auto
    obtain r2 where r2: "fst (run_moves rs ps) rid = Some r2"
      and pm2: "player_moves r2 z = moves_by z ps"
      and tot: "length (moves (user1 r2)) + length (moves (user2 r2)) = length ps"
      using run_player_moves [of rs rid r a b ps z] room ids(1,3) fresh addr z by auto
    have post: "fst (move_handler (fst (run_moves rs (butlast ps))) (last ps)) = fst (run_moves rs ps)"
      using run_moves_snoc [of rs "butlast ps" "last ps"] split_last by simp
    have "\<exists>e\<in>set (snd (move_handler (fst (run_moves rs (butlast ps))) (last ps))). is_draw e"
    proof (rule step_draw [of _ _ r1 r2])
      show "fst (run_moves rs (butlast ps)) (roomId (last ps)) = Some r1"
        using r1 last_rid by simp
      show "fst (move_handler (fst (run_moves rs (butlast ps))) (last ps)) (roomId (last ps)) = Some r2"
        using r2 last_rid post by simp
      show "3 \<le> length (player_moves r2 (payload_userId (last ps)))"
        using three pm2 by (simp add: z_def)
      show "\<not> (\<exists>t\<in>set winPatterns. set t \<subseteq> set (player_moves r2 (payload_userId (last ps))))"
        using noz pm2 by (simp add: z_def)
      show "9 \<le> length (moves (user1 r2)) + length (moves (user2 r2))"
        using tot len by simp
    qed
    then show ?thesis
      using step_events_in_run [of rs "butlast ps" "last ps" "[]"] split_last by auto
  qed
  assume "\<exists>e\<in>set (snd (move_handler (fst (run_moves rs (butlast ps))) (last ps))). is_draw e"
  then obtain e where e: "e \<in> set (snd (move_handler (fst (run_moves rs (butlast ps))) (last ps)))"
    and d: "is_draw e" by blast
  have post: "fst (move_handler (fst (run_moves rs (butlast ps))) (last ps)) = fst (run_moves rs ps)"
    using run_moves_snoc [of rs "butlast ps" "last ps"] split_last by simp
  show "\<forall>e\<in>set (snd (move_handler (fst (run_moves rs (butlast ps))) (last ps))). \<not> is_win e"
    using draw_step_facts [OF e d] by blast
  show "\<not> isWin (CheckWin (fst (run_moves rs ps)) rid (payload_userId (last ps)))"
    using draw_step_facts [OF e d] post last_rid by simp
qed

text \<open>
  The game in which nobody completes a line.
\<close>

theorem nine_moves_signal_end_witness:
  "(\<exists>e\<in>set (snd (run_moves rooms0 drawn_game)). is_win e \<or> is_draw e)
    \<and> \<not> (\<exists>e\<in>set (snd (run_moves rooms0 (butlast drawn_game))). is_draw e)
    \<and> \<not> isWin (CheckWin (fst (run_moves rooms0 drawn_game)) ''R1''
            (payload_userId (last drawn_game)))"
proof -
  have h1: "rooms0 ''R1'' = Some room0" by (simp add: rooms0_def)
  have h2: "userId (user1 room0) = Some ''userA''" by (simp add: room0_def slotA_def)
  have h3: "userId (user2 room0) = Some ''userB''" by (simp add: room0_def slotB_def)
  have h4: "''userA'' \<noteq> ''userB''" by simp
  have h5: "moves (user1 room0) = []" by (simp add: room0_def slotA_def)
  have h6: "moves (user2 room0) = []" by (simp add: room0_def slotB_def)
  have h7: "length drawn_game = 9" by (simp add: drawn_game_def)
  have h8: "\<forall>p\<in>set drawn_game.
      roomId p = ''R1'' \<and> (payload_userId p = ''userA'' \<or> payload_userId p = ''userB'')"
    by (simp add: drawn_game_def mv_def)
  have h9: "distinct (map move drawn_game)" by (simp add: drawn_game_def mv_def)
  have h10: "set (map move drawn_game) \<subseteq> {0..8}" by (simp add: drawn_game_def mv_def)
  have ninth: "snd (move_handler (fst (run_moves rooms0 (butlast drawn_game))) (last drawn_game))
      = [(''R1'', Move 8 ''userA''), (''R1'', Draw ''R1'')]"
    by code_simp
  have drawn: "\<exists>e\<in>set (snd (move_handler (fst (run_moves rooms0 (butlast drawn_game)))
      (last drawn_game))). is_draw e"
    by (simp add: ninth is_draw_def)
  show ?thesis
    using nine_moves_signal_end
      [of rooms0 "''R1''" room0 "''userA''" "''userB''" drawn_game, OF h1 h2 h3 h4 h5 h6 h7 h8 h9 h10]
      drawn
    by blast
qed

text \<open>
  Claim C2 as stated fails: in this game of nine distinct moves with the players taking
  turns, the sixth and the eighth move are answered with a win notice for \<open>userB\<close> and
  the ninth with a draw notice.
\<close>

theorem win_and_draw_counterexample:
  "length win_then_draw = 9 \<and> distinct (map move win_then_draw)
   \<and> snd (run_moves rooms0 win_then_draw) =
      [(''R1'', Move 1 ''userA''), (''R1'', Move 0 ''userB''),
       (''R1'', Move 2 ''userA''), (''R1'', Move 4 ''userB''),
       (''R1'', Move 3 ''userA''), (''R1'', Move 8 ''userB''),
       (''R1'', Win ''userB'' ''Bob'' (Some [0, 4, 8])),
       (''R1'', Move 5 ''userA''), (''R1'', Move 7 ''userB''),
       (''R1'', Win ''userB'' ''Bob'' (Some [0, 4, 8])),
       (''R1'', Move 6 ''userA''), (''R1'', Draw ''R1'')]"
  by code_simp

section \<open>Properties of the countdowns\<close>

subsection \<open>Effects of the primitives\<close>

lemma emit_fields:
  "db (emit es s) = db s" "intervals (emit es s) = intervals s"
  "next_handle (emit es s) = next_handle s" "pending (emit es s) = pending s"
  "next_task (emit es s) = next_task s" "sent (emit es s) = sent s @ es"
  by (simp_all add: emit_def)

lemma setInterval_fields:
  "db (setInterval i s) = db s" "intervals (setInterval i s) = intervals s @ [(next_handle s, i)]"
  "next_handle (setInterval i s) = Suc (next_handle s)" "pending (setInterval i s) = pending s"
  "next_task (setInterval i s) = next_task s" "sent (setInterval i s) = sent s"
  by (simp_all add: setInterval_def)

lemma clearInterval_fields:
  "db (clearInterval h s) = db s"
  "intervals (clearInterval h s) = filter (\<lambda>e. fst e \<noteq> h) (intervals s)"
  "next_handle (clearInterval h s) = next_handle s" "pending (clearInterval h s) = pending s"
  "next_task (clearInterval h s) = next_task s" "sent (clearInterval h s) = sent s"
  by (simp_all add: clearInterval_def)

lemma set_interval_fields:
  "db (set_interval h i s) = db s"
  "intervals (set_interval h i s) = map (\<lambda>e. if fst e = h then (h, i) else e) (intervals s)"
  "next_handle (set_interval h i s) = next_handle s" "pending (set_interval h i s) = pending s"
  "next_task (set_interval h i s) = next_task s" "sent (set_interval h i s) = sent s"
  by (simp_all add: set_interval_def)

lemma await_fields:
  "db (await t s) = db s" "intervals (await t s) = intervals s"
  "next_handle (await t s) = next_handle s" "pending (await t s) = pending s @ [(next_task s, t)]"
  "next_task (await t s) = Suc (next_task s)" "sent (await t s) = sent s"
  by (simp_all add: await_def)

lemmas fields = emit_fields setInterval_fields clearInterval_fields set_interval_fields
  await_fields


lemma map_of_clear:
  "map_of (filter (\<lambda>e. fst e \<noteq> h) xs) k = (if k = h then None else map_of xs k)"
  by (induction xs) auto

lemma map_of_below:
  "list_all (\<lambda>e. fst e < (n::nat)) xs \<Longrightarrow> map_of xs k = Some v \<Longrightarrow> k < n"
  by (induction xs) (auto split: if_splits)

lemma map_of_fresh:
  "list_all (\<lambda>e. fst e < (n::nat)) xs \<Longrightarrow> map_of xs n = None"
  by (induction xs) auto




subsection \<open>The two kinds of firing and the settling of a task\<close>

lemma fire_absent: "map_of (intervals s) h = None \<Longrightarrow> fire calc h s = s"
  by (simp add: fire_def)

lemma fire_tick:
  assumes "map_of (intervals s) h = Some i" and "0 \<le> counter i"
  shows "fire calc h s = set_interval h (with_counter i (counter i - 1)) (emit (tick_out calc i) s)"
  using assms by (cases i) (simp_all add: fire_def lobby_tick_def race_tick_def)

lemma fire_race_end:
  assumes "map_of (intervals s) h = Some (Race t g gid)" and "t < 0"
  shows "fire calc h s =
     await (RaceEnd h (g\<lparr>isOver := True\<rparr>) gid)
       (set_interval h (Race t (g\<lparr>isOver := True\<rparr>) gid) s)"
  using assms by (simp add: fire_def race_tick_def Let_def)

lemma fire_lobby_end:
  assumes "map_of (intervals s) h = Some (Lobby c (Some g) gid)" and "c < 0"
  shows "fire calc h s =
     await (LobbyClose h (g\<lparr>isOpen := False\<rparr>) gid)
       (set_interval h (Lobby c (Some (g\<lparr>isOpen := False\<rparr>)) gid) s)"
  using assms by (simp add: fire_def lobby_tick_def Let_def)

lemma fire_end:
  assumes "map_of (intervals s) h = Some i" and "counter i < 0"
  shows "fire calc h s = s
    \<or> (\<exists>i' t. counter i' = counter i \<and> task_handle t = Some h
          \<and> fire calc h s = await t (set_interval h i' s))"
proof (cases i)
  case (Lobby c g gid)
  show ?thesis
  proof (cases g)
    case None
    then show ?thesis using assms Lobby by (simp add: fire_def lobby_tick_def)
  next
    case (Some gm)
    have "fire calc h s = await (LobbyClose h (gm\<lparr>isOpen := False\<rparr>) gid)
       (set_interval h (Lobby c (Some (gm\<lparr>isOpen := False\<rparr>)) gid) s)"
      using assms Lobby Some by (simp add: fire_lobby_end)
    moreover have "counter (Lobby c (Some (gm\<lparr>isOpen := False\<rparr>)) gid) = counter i"
      using Lobby by simp
    moreover have "task_handle (LobbyClose h (gm\<lparr>isOpen := False\<rparr>) gid) = Some h" by simp
    ultimately show ?thesis by blast
  qed
next
  case (Race t g gid)
  have "fire calc h s = await (RaceEnd h (g\<lparr>isOver := True\<rparr>) gid)
       (set_interval h (Race t (g\<lparr>isOver := True\<rparr>) gid) s)"
    using assms Race by (simp add: fire_race_end)
  moreover have "counter (Race t (g\<lparr>isOver := True\<rparr>) gid) = counter i"
    using Race by simp
  moreover have "task_handle (RaceEnd h (g\<lparr>isOver := True\<rparr>) gid) = Some h" by simp
  ultimately show ?thesis by blast
qed

lemma settle_absent: "map_of (pending s) k = None \<Longrightarrow> settle k out now s = s"
  by (simp add: settle_def)

lemma settle_task:
  "map_of (pending s) k = Some t \<Longrightarrow>
   settle k out now s = resume t out now (s\<lparr>pending := filter (\<lambda>e. fst e \<noteq> k) (pending s)\<rparr>)"
  by (simp add: settle_def)

lemma clock_saved_fulfilled:
  assumes "map_of (pending s) k = Some (ClockSave g gid)"
  shows "step calc s (Settle k Fulfilled now) =
     setInterval (Race 120 g gid)
       (s\<lparr>pending := filter (\<lambda>e. fst e \<noteq> k) (pending s), db := (db s)(gid \<mapsto> g)\<rparr>)"
  using assms by (simp add: step_def settle_task resume_def clock_saved_def save_def)

lemma clock_saved_rejected:
  assumes "map_of (pending s) k = Some (ClockSave g gid)"
  shows "step calc s (Settle k Rejected now) = s\<lparr>pending := filter (\<lambda>e. fst e \<noteq> k) (pending s)\<rparr>"
  using assms by (simp add: step_def settle_task resume_def clock_saved_def save_def)

lemma clock_loaded_found:
  assumes "map_of (pending s) k = Some (ClockLoad gid)" and "db s gid = Some g"
  shows "step calc s (Settle k Fulfilled now) =
     await (ClockSave (g\<lparr>startTime := now\<rparr>) gid)
       (s\<lparr>pending := filter (\<lambda>e. fst e \<noteq> k) (pending s)\<rparr>)"
  using assms by (simp add: step_def settle_task resume_def clock_loaded_def findById_def)

lemma run_Nil: "run calc s [] = s"
  and run_Cons: "run calc s (ev # evs) = run calc (step calc s ev) evs"
  and run_append: "run calc s (evs @ evs') = run calc (run calc s evs) evs'"
  by (simp_all add: run_def)

lemma sent_step: "sent (step calc s ev) = sent s @ emitted calc s ev"
proof -
  have "\<exists>es. sent (step calc s ev) = sent s @ es"
  proof (cases ev)
    case (Fire h)
    show ?thesis
    proof (cases "map_of (intervals s) h")
      case None
      then show ?thesis using Fire by (simp add: step_def fire_absent)
    next
      case (Some j)
      show ?thesis
      proof (cases "0 \<le> counter j")
        case True
        then show ?thesis using Some Fire by (simp add: step_def fire_tick fields)
      next
        case False
        then have "counter j < 0" by simp
        from fire_end [OF Some this, of calc] show ?thesis
          using Fire by (auto simp: step_def fields)
      qed
    qed
  next
    case (Settle k out now)
    show ?thesis
    proof (cases "map_of (pending s) k")
      case None
      then show ?thesis using Settle by (simp add: step_def settle_absent)
    next
      case (Some t)
      then show ?thesis
        using Settle
        by (cases t)
          (auto simp: step_def settle_task resume_def lobby_closed_def clock_loaded_def
            clock_saved_def race_ended_def startGameClock_def fields
            split: option.splits outcome.splits)
    qed
  qed
  then show ?thesis by (auto simp: emitted_def)
qed

subsection \<open>Handles and task identifiers stay fresh\<close>

text \<open>
  Every operation of the server keeps the handles of the active intervals and of the
  stopped callbacks below the next free handle, and the task identifiers below the next
  free one. So the condition holds in every state reached from a server without
  intervals and tasks.
\<close>

lemma wf_emit: "wf_server s \<Longrightarrow> wf_server (emit es s)"
  by (simp add: wf_server_def fields)

lemma wf_db: "wf_server s \<Longrightarrow> wf_server (s\<lparr>db := d\<rparr>)"
  by (simp add: wf_server_def)

lemma task_below_mono: "task_below n t \<Longrightarrow> n \<le> m \<Longrightarrow> task_below m t"
  by (cases t) simp_all

lemma task_below_handle: "task_below n t \<longleftrightarrow> (\<forall>h. task_handle t = Some h \<longrightarrow> h < n)"
  by (cases t) simp_all

lemma wf_setInterval: "wf_server s \<Longrightarrow> wf_server (setInterval i s)"
  by (auto simp: wf_server_def fields list_all_iff less_Suc_eq intro: task_below_mono)

lemma wf_clearInterval: "wf_server s \<Longrightarrow> wf_server (clearInterval h s)"
  by (auto simp: wf_server_def fields list_all_iff)

lemma wf_set_interval: "wf_server s \<Longrightarrow> wf_server (set_interval h i s)"
  by (auto simp: wf_server_def fields list_all_iff)

lemma wf_await:
  assumes "wf_server s" and "\<And>h. task_handle t = Some h \<Longrightarrow> h < next_handle s"
  shows "wf_server (await t s)"
  using assms by (auto simp: wf_server_def fields list_all_iff less_Suc_eq task_below_handle)

lemma wf_unpend: "wf_server s \<Longrightarrow> wf_server (s\<lparr>pending := filter P (pending s)\<rparr>)"
  by (auto simp: wf_server_def list_all_iff)

lemma wf_active: "wf_server s \<Longrightarrow> map_of (intervals s) h = Some i \<Longrightarrow> h < next_handle s"
  by (auto simp: wf_server_def dest: map_of_below)

lemma wf_fire: "wf_server s \<Longrightarrow> wf_server (fire calc h s)"
proof (cases "map_of (intervals s) h")
  case None
  assume "wf_server s"
  then show ?thesis using None by (simp add: fire_absent)
next
  case (Some i)
  assume wf: "wf_server s"
  show ?thesis
  proof (cases "0 \<le> counter i")
    case True
    then show ?thesis using wf Some by (simp add: fire_tick wf_set_interval wf_emit)
  next
    case False
    then have "counter i < 0" by simp
    from fire_end [OF Some this, of calc] show ?thesis
    proof
      assume "fire calc h s = s"
      then show ?thesis using wf by simp
    next
      assume "\<exists>i' t. counter i' = counter i \<and> task_handle t = Some h
          \<and> fire calc h s = await t (set_interval h i' s)"
      then obtain i' t where t: "task_handle t = Some h"
        and f: "fire calc h s = await t (set_interval h i' s)" by blast
      have "wf_server (await t (set_interval h i' s))"
      proof (rule wf_await)
        show "wf_server (set_interval h i' s)" using wf by (rule wf_set_interval)
        fix h' assume "task_handle t = Some h'"
        then show "h' < next_handle (set_interval h i' s)"
          using t wf_active [OF wf Some] by (simp add: fields)
      qed
      then show ?thesis by (simp add: f)
    qed
  qed
qed

lemma wf_resume: "wf_server s \<Longrightarrow> wf_server (resume t out now s)"
  by (cases t)
    (auto simp: resume_def lobby_closed_def clock_loaded_def clock_saved_def race_ended_def
      startGameClock_def
      intro!: wf_clearInterval wf_await wf_emit wf_db wf_setInterval
      split: option.splits outcome.splits)

lemma wf_settle: "wf_server s \<Longrightarrow> wf_server (settle k out now s)"
  by (cases "map_of (pending s) k") (simp_all add: settle_absent settle_task wf_resume wf_unpend)

lemma wf_step: "wf_server s \<Longrightarrow> wf_server (step calc s ev)"
  by (cases ev) (simp_all add: step_def wf_fire wf_settle)

lemma wf_run: "wf_server s \<Longrightarrow> wf_server (run calc s evs)"
  by (induction evs arbitrary: s) (simp_all add: run_def wf_step)

lemma wf_startGameClock: "wf_server s \<Longrightarrow> wf_server (startGameClock gameId s)"
  by (auto simp: startGameClock_def intro: wf_await)


lemma wf_fresh_task: "wf_server s \<Longrightarrow> map_of (pending s) (next_task s) = None"
  by (auto simp: wf_server_def list_all_iff intro!: map_of_fresh)



lemma wf_server0: "wf_server server0"
  by (simp add: wf_server_def server0_def)

lemma wf_clock_waiting: "wf_server clock_waiting"
  unfolding clock_waiting_def by (intro wf_step wf_startGameClock wf_server0)

subsection \<open>What an event leaves alone\<close>




lemma resume_pending:
  "\<exists>ts. pending (resume t out now s) = pending s @ ts \<and> list_all (\<lambda>e. task_handle (snd e) = None) ts
      \<and> list_all (\<lambda>e. next_task s \<le> fst e) ts"
  by (cases t)
    (auto simp: resume_def lobby_closed_def clock_loaded_def clock_saved_def race_ended_def
      startGameClock_def fields split: option.splits outcome.splits)





lemma pending_foreign:
  assumes "map_of (pending s) k = Some t" and "\<And>out now. ev \<noteq> Settle k out now"
  shows "map_of (pending (step calc s ev)) k = Some t"
proof (cases ev)
  case (Fire h)
  show ?thesis
  proof (cases "map_of (intervals s) h")
    case None
    then show ?thesis using assms(1) Fire by (simp add: step_def fire_absent)
  next
    case (Some j)
    show ?thesis
    proof (cases "0 \<le> counter j")
      case True
      then show ?thesis using Some assms(1) Fire by (simp add: step_def fire_tick fields)
    next
      case False
      then have "counter j < 0" by simp
      from fire_end [OF Some this, of calc] show ?thesis
        using assms(1) Fire by (auto simp: step_def fields map_add_def)
    qed
  qed
next
  case (Settle k' out now)
  then have ne: "k' \<noteq> k" using assms(2) by auto
  show ?thesis
  proof (cases "map_of (pending s) k'")
    case None
    then show ?thesis using assms(1) Settle by (simp add: step_def settle_absent)
  next
    case (Some t')
    define s1 where "s1 = s\<lparr>pending := filter (\<lambda>e. fst e \<noteq> k') (pending s)\<rparr>"
    obtain ts where p: "pending (resume t' out now s1) = pending s1 @ ts"
      using resume_pending by blast
    have "map_of (pending s1) k = Some t" using assms(1) ne by (simp add: s1_def map_of_clear)
    then have "map_of (pending (resume t' out now s1)) k = Some t"
      by (simp add: p map_add_def)
    then show ?thesis using Settle Some by (simp add: step_def settle_task s1_def)
  qed
qed

lemma pending_run:
  assumes "map_of (pending s) k = Some t" and "\<And>out now. Settle k out now \<notin> set evs"
  shows "map_of (pending (run calc s evs)) k = Some t"
  using assms
proof (induction evs arbitrary: s)
  case Nil
  then show ?case by (simp add: run_Nil)
next
  case (Cons ev evs)
  have "map_of (pending (step calc s ev)) k = Some t"
  proof (rule pending_foreign [OF Cons.prems(1)])
    show "\<And>out now. ev \<noteq> Settle k out now" using Cons.prems(2) by auto
  qed
  then have "map_of (pending (run calc (step calc s ev) evs)) k = Some t"
  proof (rule Cons.IH)
    show "\<And>out now. Settle k out now \<notin> set evs" using Cons.prems(2) by simp
  qed
  then show ?case by (simp add: run_Cons)
qed

subsection \<open>An interval that is counting\<close>





subsection \<open>An interval that has counted down or has gone\<close>











subsection \<open>An interval whose callback is stopped at its save\<close>








subsection \<open>The race countdown\<close>






lemma race_handles_setInterval:
  "race_handles (setInterval (Race t g gid) s) gid = race_handles s gid @ [next_handle s]"
  by (simp add: race_handles_def fields)

text \<open>
  Claim C9, as the server has it. \<open>startGameClock\<close> keeps no record of the intervals
  that run and checks none: it leaves the intervals alone and issues its load. When the
  load is fulfilled and finds the game, the save that follows, once fulfilled, creates a
  new race interval
  for the game beside whatever intervals are active for it then, whatever the server did
  in between. When that save is rejected no interval is created.
\<close>

theorem startGameClock_adds_interval:
  assumes s1: "s1 = startGameClock gameId s"
    and wf: "wf_server s"
    and wait1: "\<And>out t. Settle (next_task s) out t \<notin> set evs1"
    and s2: "s2 = run calc s1 evs1"
    and found: "db s2 gameId = Some g"
    and s3: "s3 = step calc s2 (Settle (next_task s) Fulfilled now)"
    and wait2: "\<And>out t. Settle (next_task s2) out t \<notin> set evs2"
    and s4: "s4 = run calc s3 evs2"
  shows "intervals s1 = intervals s
    \<and> race_handles (step calc s4 (Settle (next_task s2) Fulfilled t2)) gameId
         = race_handles s4 gameId @ [next_handle s4]
    \<and> race_handles (step calc s4 (Settle (next_task s2) Rejected t2)) gameId
         = race_handles s4 gameId"
proof -
  have wf1: "wf_server s1" unfolding s1 using wf by (rule wf_startGameClock)
  have wf2: "wf_server s2" unfolding s2 using wf1 by (rule wf_run)
  have "map_of (pending s1) (next_task s) = Some (ClockLoad gameId)"
    using wf_fresh_task [OF wf] by (simp add: s1 startGameClock_def fields map_add_def)
  then have t2: "map_of (pending s2) (next_task s) = Some (ClockLoad gameId)"
    unfolding s2 using wait1 by (rule pending_run)
  have s3': "s3 = await (ClockSave (g\<lparr>startTime := now\<rparr>) gameId)
       (s2\<lparr>pending := filter (\<lambda>e. fst e \<noteq> next_task s) (pending s2)\<rparr>)"
    unfolding s3 using t2 found by (rule clock_loaded_found)
  have "map_of (filter (\<lambda>e. fst e \<noteq> next_task s) (pending s2)) (next_task s2) = None"
    using wf2 by (auto simp: wf_server_def list_all_iff intro!: map_of_fresh)
  then have "map_of (pending s3) (next_task s2) = Some (ClockSave (g\<lparr>startTime := now\<rparr>) gameId)"
    by (simp add: s3' fields map_add_def)
  then have t4: "map_of (pending s4) (next_task s2) = Some (ClockSave (g\<lparr>startTime := now\<rparr>) gameId)"
    unfolding s4 using wait2 by (rule pending_run)
  have "race_handles (step calc s4 (Settle (next_task s2) Fulfilled t2)) gameId
         = race_handles s4 gameId @ [next_handle s4]"
    by (simp add: clock_saved_fulfilled [OF t4] race_handles_def fields)
  moreover have "race_handles (step calc s4 (Settle (next_task s2) Rejected t2)) gameId
         = race_handles s4 gameId"
    by (simp add: clock_saved_rejected [OF t4] race_handles_def)
  moreover have "intervals s1 = intervals s"
    by (simp add: s1 startGameClock_def fields)
  ultimately show ?thesis by simp
qed

text \<open>
  A second start for the sample game while its first race interval is active.
\<close>

theorem startGameClock_adds_interval_witness:
  "intervals (startGameClock ''g1'' racing0) = intervals racing0
    \<and> race_handles racing0 ''g1'' = [0]
    \<and> race_handles
         (step flat_time
            (step flat_time (startGameClock ''g1'' racing0) (Settle (next_task racing0) Fulfilled 2000))
            (Settle (next_task (startGameClock ''g1'' racing0)) Fulfilled 2001)) ''g1''
       = [0, 1]
    \<and> race_handles
         (step flat_time
            (step flat_time (startGameClock ''g1'' racing0) (Settle (next_task racing0) Fulfilled 2000))
            (Settle (next_task (startGameClock ''g1'' racing0)) Fulfilled 2001)) ''g1''
       = race_handles
           (step flat_time (startGameClock ''g1'' racing0) (Settle (next_task racing0) Fulfilled 2000))
           ''g1''
         @ [next_handle
              (step flat_time (startGameClock ''g1'' racing0)
                 (Settle (next_task racing0) Fulfilled 2000))]"
proof -
  have wf: "wf_server racing0"
    unfolding racing0_def by (intro wf_step wf_clock_waiting)
  have uns1: "\<And>out t. Settle (next_task racing0) out t \<notin> set []" by simp
  have uns2: "\<And>out t. Settle (next_task (startGameClock ''g1'' racing0)) out t \<notin> set []" by simp
  have r1: "startGameClock ''g1'' racing0 = run flat_time (startGameClock ''g1'' racing0) []"
    by (simp add: run_Nil)
  have found: "db (startGameClock ''g1'' racing0) ''g1'' = Some (game1\<lparr>startTime := 1000\<rparr>)"
    by code_simp
  have r2: "step flat_time (startGameClock ''g1'' racing0) (Settle (next_task racing0) Fulfilled 2000)
      = run flat_time
          (step flat_time (startGameClock ''g1'' racing0) (Settle (next_task racing0) Fulfilled 2000)) []"
    by (simp add: run_Nil)
  have one: "race_handles racing0 ''g1'' = [0]" by code_simp
  have two: "race_handles
         (step flat_time
            (step flat_time (startGameClock ''g1'' racing0) (Settle (next_task racing0) Fulfilled 2000))
            (Settle (next_task (startGameClock ''g1'' racing0)) Fulfilled 2001)) ''g1''
       = [0, 1]" by code_simp
  note inst = startGameClock_adds_interval [OF refl wf uns1 r1 found refl uns2 r2,
      where ?t2.0 = 2001]
  from inst one two show ?thesis by (elim conjE) (intro conjI; assumption)
qed

text \<open>
  Claim C9 as stated fails: after two starts of the race clock for game \<open>g1\<close>, each
  with its load and its save fulfilled, two race intervals, under the handles 0 and 1,
  are active for it at the same time.
\<close>

theorem duplicate_race_timers_counterexample:
  "race_handles racing0 ''g1'' = [0]
   \<and> race_handles racing_twice ''g1'' = [0, 1]
   \<and> active racing_twice 0 \<and> active racing_twice 1"
  by code_simp

subsection \<open>The lobby countdown\<close>






text \<open>
  Claim C8, as the handler has it. A request whose player is not a party leader of the
  game creates no interval and leaves the store alone. When the player is found and is not
  the leader nothing is sent at all, so the request is ignored without an answer. When the
  game or the player is not found, one \<open>timer\<close> event with count 0 and the snapshot are
  sent to the room.
\<close>

theorem timer_request_without_leader:
  assumes "\<not> (\<exists>p. players_id (findById (db s) gameId) playerId = Some p \<and> isPartyLeader p)"
  shows "intervals (timer_handler playerId gameId s) = intervals s
    \<and> next_handle (timer_handler playerId gameId s) = next_handle s
    \<and> db (timer_handler playerId gameId s) = db s
    \<and> sent (timer_handler playerId gameId s) =
        (if players_id (findById (db s) gameId) playerId = None
         then sent s @ [(gameId, Timer (Num 0) ''There is no Player, Try Again''),
                        (gameId, UpdateGame (findById (db s) gameId))]
         else sent s)"
  using assms by (auto simp: timer_handler_def Let_def emit_def split: option.splits)

text \<open>
  The second player of the sample game, who is not the leader.
\<close>

theorem timer_request_without_leader_witness:
  "intervals (timer_handler ''p2'' ''g1'' server0) = intervals server0
    \<and> next_handle (timer_handler ''p2'' ''g1'' server0) = next_handle server0
    \<and> db (timer_handler ''p2'' ''g1'' server0) = db server0
    \<and> sent (timer_handler ''p2'' ''g1'' server0) = sent server0"
proof -
  have pl: "players_id (findById (db server0) ''g1'') ''p2''
      = Some \<lparr>player_id = ''p2'', isPartyLeader = False\<rparr>"
    by (simp add: server0_def findById_def players_id_def game1_def)
  then have h: "\<not> (\<exists>p. players_id (findById (db server0) ''g1'') ''p2'' = Some p \<and> isPartyLeader p)"
    by simp
  show ?thesis
    using timer_request_without_leader [OF h] pl by simp
qed

text \<open>
  Claim C8 as stated fails: the request of \<open>p2\<close>, who is not the leader, is answered
  with nothing, so no refusal reaches anybody; and the request of the unknown player
  \<open>p3\<close> is answered with a \<open>timer\<close> event of count 0 to the room.
\<close>

theorem non_leader_request_counterexample:
  "sent (timer_handler ''p2'' ''g1'' server0) = []
   \<and> intervals (timer_handler ''p2'' ''g1'' server0) = []
   \<and> sent (timer_handler ''p3'' ''g1'' server0) =
       [(''g1'', Timer (Num 0) ''There is no Player, Try Again''),
        (''g1'', UpdateGame (Some game1))]"
  by (simp add: server0_def timer_handler_def findById_def players_id_def game1_def emit_def
      Let_def)

end
